theory Spec2Isabelle
  imports Main "HOL-Library.AList" "HOL-Library.Multiset"
begin

section \<open>Data model of the Sentinel client\<close>

text \<open>
  The development embeds the Sentinel-backed client of the repository (the Go type
  \<^verbatim>\<open>Sentinel\<close> and its methods). A connection pool (\<^verbatim>\<open>Client\<close>) is a handle; the nil
  interface value is \<open>None\<close> of \<open>client option\<close>. An open Sentinel connection
  (\<^verbatim>\<open>Conn\<close>) is a handle together with the remote address \<^verbatim>\<open>conn.Addr().String()\<close> reports.
\<close>

type_synonym client = nat

record conn =
  conn_id :: nat
  conn_addr :: string

text \<open>
  Go errors are values of one datatype. \<open>ErrExternal\<close> stands for any error a
  collaborator produces (a dial, a pool construction, a command on a connection); the
  other constructors are the errors the code itself builds. A run-time panic (a method
  call on a nil interface, an index out of range) is the value \<open>Panic\<close>.
\<close>

datatype error =
    ErrClosed
  | ErrExternal string
  | ErrNoClients
  | ErrMalformed string "(string \<times> string) list"
  | ErrCreatingClient string error
  | Panic

text \<open>
  A Go map is an association list with pairwise distinct keys. \<^verbatim>\<open>m[k]\<close> on a map of
  clients yields nil for an absent key, \<^verbatim>\<open>m[k]\<close> on a map of strings yields the empty
  string, \<^verbatim>\<open>_, ok := m[k]\<close> tests the key, and \<^verbatim>\<open>m[k] = v\<close> is \<open>AList.update\<close>.
\<close>

type_synonym 'v gomap = "(string \<times> 'v) list"

definition client_get :: "client option gomap \<Rightarrow> string \<Rightarrow> client option" where
  "client_get m k = (case map_of m k of None \<Rightarrow> None | Some v \<Rightarrow> v)"

definition str_get :: "string gomap \<Rightarrow> string \<Rightarrow> string" where
  "str_get m k = (case map_of m k of None \<Rightarrow> '''' | Some v \<Rightarrow> v)"

definition has_key :: "'v gomap \<Rightarrow> string \<Rightarrow> bool" where
  "has_key m k = (map_of m k \<noteq> None)"

text \<open>
  Go leaves the order in which \<^verbatim>\<open>range\<close> visits a map unspecified. The order of one
  loop is chosen by a rank on the keys: the entries are visited by ascending rank, and
  entries of equal rank in the order of the list. Every order of the entries is the
  order of some rank, and the theorems below hold for every rank.
\<close>

definition range_order :: "(string \<Rightarrow> nat) \<Rightarrow> 'v gomap \<Rightarrow> 'v gomap" where
  "range_order rk m = sort_key (\<lambda>e. rk (fst e)) m"

text \<open>
  The fields of \<^verbatim>\<open>Sentinel\<close> that the methods below read or write. \<open>closed\<close> is the
  latch of the supervisor \<^verbatim>\<open>proc.Proc\<close>.
\<close>

record sentinel =
  closed :: bool
  initAddrs :: "string list"
  name :: string
  primAddr :: string
  clients :: "client option gomap"
  sentinelAddrs :: "bool gomap"

text \<open>
  What a method does besides changing the fields is recorded as a list of events, in the
  order of occurrence: a call of the \<^verbatim>\<open>ClientFunc\<close> with its outcome, the storing of a
  new pool into \<^verbatim>\<open>sc.clients\<close>, a call of \<^verbatim>\<open>Close\<close> on a pool, the write-lock section
  of \<^verbatim>\<open>ensureClients\<close> that publishes a topology, and the execution of an action on a
  pool.
\<close>

datatype event =
    EvPoolFunc string "error + client"
  | EvInstall string client
  | EvClose client
  | EvCommit
  | EvDo client

section \<open>The Sentinel dialer\<close>

text \<open>
  \<^verbatim>\<open>dialSentinel\<close> (lines 201 to 220). The \<^verbatim>\<open>ConnFunc\<close> is a parameter: \<open>cf n a\<close> is the
  outcome of the dial to address \<open>a\<close> made as dial number \<open>n\<close> of the call (counted from
  0), so that two dials of one address may differ. A failed dial yields a nil connection
  with its error. The first loop keeps the last error in the named result \<^verbatim>\<open>err\<close>; the
  second loop keeps its errors in the local \<^verbatim>\<open>initErr\<close>.

  Modelled from the spec: \<^verbatim>\<open>proc.WithRLock\<close> and \<^verbatim>\<open>proc.WithLock\<close> (package
  \<^verbatim>\<open>internal/proc\<close>) run the function they are given unless the supervisor is closed, in
  which case they return the "closed" error without running it.
\<close>

fun dial_known :: "(nat \<Rightarrow> string \<Rightarrow> error + conn) \<Rightarrow> nat \<Rightarrow> string list \<Rightarrow> error option
    \<Rightarrow> conn + error option" where
  "dial_known cf n [] err = Inr err"
| "dial_known cf n (a # as) err =
     (case cf n a of
        Inr c \<Rightarrow> Inl c
      | Inl e \<Rightarrow> dial_known cf (Suc n) as (Some e))"

fun dial_init :: "(nat \<Rightarrow> string \<Rightarrow> error + conn) \<Rightarrow> nat \<Rightarrow> string list \<Rightarrow> conn option" where
  "dial_init cf n [] = None"
| "dial_init cf n (a # as) =
     (case cf n a of
        Inr c \<Rightarrow> Some c
      | Inl initErr \<Rightarrow> dial_init cf (Suc n) as)"

definition dialSentinel :: "(nat \<Rightarrow> string \<Rightarrow> error + conn) \<Rightarrow> (string \<Rightarrow> nat) \<Rightarrow> sentinel
    \<Rightarrow> conn option \<times> error option" where
  "dialSentinel cf rk sc =
     (if closed sc then (None, Some ErrClosed)
      else
        let ks = map fst (range_order rk (sentinelAddrs sc)) in
        case dial_known cf 0 ks None of
          Inl c \<Rightarrow> (Some c, None)
        | Inr err \<Rightarrow>
            (case dial_init cf (length ks) (initAddrs sc) of
               Some c \<Rightarrow> (Some c, None)
             | None \<Rightarrow> (None, err)))"

section \<open>Looking up and creating pools\<close>

text \<open>
  The loop of \<^verbatim>\<open>client\<close> over \<^verbatim>\<open>sc.clients\<close> (lines 280 to 284). It assigns the
  function's own \<^verbatim>\<open>addr\<close> and \<^verbatim>\<open>client\<close> at every entry it visits and stops at the
  first entry whose key is not the primary's; its result is the pair held by the two
  variables after the loop.
\<close>

fun pick_secondary :: "string \<Rightarrow> client option gomap \<Rightarrow> string \<times> client option
    \<Rightarrow> string \<times> client option" where
  "pick_secondary p [] acc = acc"
| "pick_secondary p ((a, c) # es) acc =
     (if a \<noteq> p then (a, c) else pick_secondary p es (a, c))"

text \<open>
  The read-lock section of \<^verbatim>\<open>client\<close> (lines 278 to 290): the values of \<^verbatim>\<open>addr\<close> and
  \<^verbatim>\<open>client\<close> when the section ends.
\<close>

definition client_rlock :: "(string \<Rightarrow> nat) \<Rightarrow> sentinel \<Rightarrow> string \<Rightarrow> string \<times> client option" where
  "client_rlock rk sc addr =
     (let (addr1, c1) =
            (if addr = '''' then pick_secondary (primAddr sc) (range_order rk (clients sc)) (addr, None)
             else (addr, None));
          c2 = (if c1 = None then client_get (clients sc) (primAddr sc) else c1)
      in (addr1, c2))"

text \<open>
  \<^verbatim>\<open>client\<close> (lines 276 to 323). \<open>pf\<close> is the \<^verbatim>\<open>ClientFunc\<close>; a successful call yields
  a pool that is not nil. \<open>env\<close> is what other tasks do to the fields between the release
  of the read lock and the acquisition of the write lock (the identity when no other
  task runs). The result is the returned pair, the fields afterwards and the events.
\<close>

definition client :: "(string \<Rightarrow> error + client) \<Rightarrow> (string \<Rightarrow> nat) \<Rightarrow> (sentinel \<Rightarrow> sentinel)
    \<Rightarrow> sentinel \<Rightarrow> string \<Rightarrow> (error + client) \<times> sentinel \<times> event list" where
  "client pf rk env sc addr =
     (if closed sc then (Inl ErrClosed, sc, [])
      else
        case client_rlock rk sc addr of
          (addr1, Some c) \<Rightarrow> (Inr c, sc, [])
        | (addr1, None) \<Rightarrow>
            if addr1 = '''' then (Inl ErrNoClients, sc, [])
            else
              (case pf addr1 of
                 Inl e \<Rightarrow> (Inl e, sc, [EvPoolFunc addr1 (Inl e)])
               | Inr newClient \<Rightarrow>
                   let sc1 = env sc in
                   if closed sc1
                   then (Inl ErrClosed, sc1, [EvPoolFunc addr1 (Inr newClient), EvClose newClient])
                   else
                     (case client_get (clients sc1) addr1 of
                        None \<Rightarrow>
                          (Inr newClient,
                           sc1\<lparr>clients := AList.update addr1 (Some newClient) (clients sc1)\<rparr>,
                           [EvPoolFunc addr1 (Inr newClient), EvInstall addr1 newClient])
                      | Some c \<Rightarrow>
                          (Inr c, sc1, [EvPoolFunc addr1 (Inr newClient), EvClose newClient]))))"

text \<open>
  \<^verbatim>\<open>DoSecondary\<close> (lines 236 to 242). \<open>act c\<close> is the outcome of the action on pool \<open>c\<close>.
\<close>

definition DoSecondary :: "(string \<Rightarrow> error + client) \<Rightarrow> (string \<Rightarrow> nat) \<Rightarrow> (sentinel \<Rightarrow> sentinel)
    \<Rightarrow> (client \<Rightarrow> error option) \<Rightarrow> sentinel \<Rightarrow> error option \<times> sentinel \<times> event list" where
  "DoSecondary pf rk env act sc =
     (case client pf rk env sc '''' of
        (Inl e, sc1, tr) \<Rightarrow> (Some e, sc1, tr)
      | (Inr c, sc1, tr) \<Rightarrow> (act c, sc1, tr @ [EvDo c]))"

section \<open>Topology projection\<close>

text \<open>\<^verbatim>\<open>Clients\<close> (lines 246 to 261) and the \<^verbatim>\<open>ReplicaSet\<close> it fills.\<close>

record replicaSet =
  Primary :: "client option"
  Secondaries :: "client option list"

fun fill_replicaSet :: "string \<Rightarrow> client option gomap \<Rightarrow> replicaSet \<Rightarrow> replicaSet" where
  "fill_replicaSet p [] rs = rs"
| "fill_replicaSet p ((a, c) # es) rs =
     (if a = p then fill_replicaSet p es (rs\<lparr>Primary := c\<rparr>)
      else fill_replicaSet p es (rs\<lparr>Secondaries := Secondaries rs @ [c]\<rparr>))"

definition Clients :: "(string \<Rightarrow> nat) \<Rightarrow> sentinel \<Rightarrow> replicaSet gomap \<times> error option" where
  "Clients rk sc =
     (if closed sc then ([], Some ErrClosed)
      else
        ([(primAddr sc,
           fill_replicaSet (primAddr sc) (range_order rk (clients sc))
             \<lparr>Primary = None, Secondaries = []\<rparr>)],
         None))"

section \<open>Reconciliation\<close>

text \<open>
  \<^verbatim>\<open>net.JoinHostPort\<close> of the Go standard library: a host that contains a colon is put
  in brackets.
\<close>

definition JoinHostPort :: "string \<Rightarrow> string \<Rightarrow> string" where
  "JoinHostPort host port =
     (if CHR '':'' \<in> set host then ''['' @ host @ '']:'' @ port else host @ '':'' @ port)"

text \<open>\<^verbatim>\<open>sentinelMtoAddr\<close> (lines 341 to 346).\<close>

definition sentinelMtoAddr :: "string gomap \<Rightarrow> string \<Rightarrow> error + string" where
  "sentinelMtoAddr m cmd =
     (if str_get m ''ip'' = '''' \<or> str_get m ''port'' = '''' then Inl (ErrMalformed cmd m)
      else Inr (JoinHostPort (str_get m ''ip'') (str_get m ''port'')))"

text \<open>
  \<^verbatim>\<open>ensureSentinelAddrs\<close> (lines 454 to 470). \<open>resp\<close> is the outcome of the
  \<^verbatim>\<open>SENTINEL SENTINELS\<close> command on the connection.
\<close>

definition ensureSentinelAddrs :: "sentinel \<Rightarrow> conn \<Rightarrow> error + string gomap list
    \<Rightarrow> error option \<times> sentinel" where
  "ensureSentinelAddrs sc cn resp =
     (case resp of
        Inl e \<Rightarrow> (Some e, sc)
      | Inr mm \<Rightarrow>
          let addrs = fold (\<lambda>m acc. AList.update (JoinHostPort (str_get m ''ip'') (str_get m ''port'')) True acc)
                        mm [(conn_addr cn, True)]
          in if closed sc then (Some ErrClosed, sc)
             else (None, sc\<lparr>sentinelAddrs := addrs\<rparr>))"

text \<open>
  The three loops of \<^verbatim>\<open>ensureClients\<close>: the desired keys from the replicas (lines 366
  to 372), the pools of the desired keys (lines 376 to 386; the trace nodes it also
  builds only feed the tracer), and the loop of the write-lock section over
  \<^verbatim>\<open>sc.clients\<close> (lines 394 to 405).
\<close>

fun desired_keys :: "string gomap list \<Rightarrow> client option gomap \<Rightarrow> error + client option gomap" where
  "desired_keys [] nc = Inr nc"
| "desired_keys (secM # ms) nc =
     (case sentinelMtoAddr secM ''SENTINEL SLAVES'' of
        Inl e \<Rightarrow> Inl e
      | Inr newSecAddr \<Rightarrow> desired_keys ms (AList.update newSecAddr None nc))"

fun ensure_each :: "(string \<Rightarrow> error + client) \<Rightarrow> (string \<Rightarrow> nat) \<Rightarrow> string list
    \<Rightarrow> client option gomap \<Rightarrow> sentinel \<Rightarrow> (error + client option gomap) \<times> sentinel \<times> event list" where
  "ensure_each pf rk [] nc sc = (Inr nc, sc, [])"
| "ensure_each pf rk (a # as) nc sc =
     (case client pf rk id sc a of
        (Inl e, sc1, tr) \<Rightarrow> (Inl (ErrCreatingClient a e), sc1, tr)
      | (Inr c, sc1, tr) \<Rightarrow>
          (case ensure_each pf rk as (AList.update a (Some c) nc) sc1 of
             (r, sc2, tr2) \<Rightarrow> (r, sc2, tr @ tr2)))"

fun carry_over :: "client option gomap \<Rightarrow> client option gomap \<Rightarrow> client option list
    \<Rightarrow> client option gomap \<times> client option list" where
  "carry_over [] nc toClose = (nc, toClose)"
| "carry_over ((a, c) # es) nc toClose =
     (if has_key nc a then carry_over es (AList.update a c nc) toClose
      else carry_over es nc (toClose @ [c]))"

text \<open>
  The loop that closes the pools (lines 416 to 418): \<^verbatim>\<open>Close\<close> on a nil entry panics.
\<close>

fun close_each :: "client option list \<Rightarrow> error option \<times> event list" where
  "close_each [] = (None, [])"
| "close_each (None # cs) = (Some Panic, [])"
| "close_each (Some c # cs) = (case close_each cs of (r, tr) \<Rightarrow> (r, EvClose c # tr))"

text \<open>
  \<^verbatim>\<open>ensureClients\<close> (lines 350 to 421). \<open>resp\<close> is the outcome of the pipeline of
  \<^verbatim>\<open>SENTINEL MASTER\<close> and \<^verbatim>\<open>SENTINEL SLAVES\<close>; \<open>rk1\<close> orders the loop over the desired
  keys and \<open>rk2\<close> the loop over \<^verbatim>\<open>sc.clients\<close>. The control loop is the only task that
  reconciles, so the pass runs without other writers. The call of the tracer at the end
  changes no field and is left out.
\<close>

definition ensureClients :: "(string \<Rightarrow> error + client) \<Rightarrow> (string \<Rightarrow> nat) \<Rightarrow> (string \<Rightarrow> nat)
    \<Rightarrow> error + (string gomap \<times> string gomap list) \<Rightarrow> sentinel
    \<Rightarrow> error option \<times> sentinel \<times> event list" where
  "ensureClients pf rk1 rk2 resp sc =
     (case resp of
        Inl e \<Rightarrow> (Some e, sc, [])
      | Inr (primM, secMM) \<Rightarrow>
          (case sentinelMtoAddr primM ''SENTINEL MASTER'' of
             Inl e \<Rightarrow> (Some e, sc, [])
           | Inr newPrimAddr \<Rightarrow>
               (case desired_keys secMM [(newPrimAddr, None)] of
                  Inl e \<Rightarrow> (Some e, sc, [])
                | Inr newClients \<Rightarrow>
                    (case ensure_each pf rk1 (map fst (range_order rk1 newClients)) newClients sc of
                       (Inl e, sc1, tr) \<Rightarrow> (Some e, sc1, tr)
                     | (Inr newClients1, sc1, tr) \<Rightarrow>
                         if closed sc1 then (Some ErrClosed, sc1, tr)
                         else
                           (case carry_over (range_order rk2 (clients sc1)) newClients1 [] of
                              (newClients2, toClose) \<Rightarrow>
                                (case close_each toClose of
                                   (r, trc) \<Rightarrow>
                                     (r, sc1\<lparr>primAddr := newPrimAddr, clients := newClients2\<rparr>,
                                      tr @ EvCommit # trc)))))))"

section \<open>Construction and the reachable states\<close>

text \<open>
  \<^verbatim>\<open>NewSentinel\<close> (lines 122 to 185), up to the start of the control loop. Indexing the
  empty address list panics, as does deferring \<^verbatim>\<open>Close\<close> on a nil connection.
  \<open>respS\<close> and \<open>respC\<close> are the outcomes of the Sentinel commands on the connection that
  was dialled, and \<open>pconn\<close> is the error of \<^verbatim>\<open>NewPersistentPubSubConn\<close>, if any.
\<close>

definition NewSentinel :: "(nat \<Rightarrow> string \<Rightarrow> error + conn) \<Rightarrow> (string \<Rightarrow> error + client)
    \<Rightarrow> (string \<Rightarrow> nat) \<Rightarrow> (string \<Rightarrow> nat) \<Rightarrow> (string \<Rightarrow> nat)
    \<Rightarrow> (conn \<Rightarrow> error + string gomap list)
    \<Rightarrow> (conn \<Rightarrow> error + (string gomap \<times> string gomap list))
    \<Rightarrow> error option \<Rightarrow> string \<Rightarrow> string list \<Rightarrow> error + sentinel" where
  "NewSentinel cf pf rk0 rk1 rk2 respS respC pconn primaryName addrs =
     (let sc = \<lparr>closed = False, initAddrs = addrs, name = primaryName, primAddr = '''',
                clients = [], sentinelAddrs = fold (\<lambda>a m. AList.update a True m) addrs []\<rparr>
      in if addrs = [] then Inl Panic
         else
           (case dialSentinel cf rk0 sc of
              (_, Some e) \<Rightarrow> Inl e
            | (None, None) \<Rightarrow> Inl Panic
            | (Some cn, None) \<Rightarrow>
                (case ensureSentinelAddrs sc cn (respS cn) of
                   (Some e, _) \<Rightarrow> Inl e
                 | (None, sc1) \<Rightarrow>
                     (case ensureClients pf rk1 rk2 (respC cn) sc1 of
                        (Some e, _, _) \<Rightarrow> Inl e
                      | (None, sc2, _) \<Rightarrow>
                          (case pconn of
                             Some e \<Rightarrow> Inl e
                           | None \<Rightarrow> Inr sc2)))))"

text \<open>
  The states of a Sentinel between its construction and its close: the state
  \<^verbatim>\<open>NewSentinel\<close> returns, and every state a pass of the control loop
  (\<^verbatim>\<open>ensureSentinelAddrs\<close>, \<^verbatim>\<open>ensureClients\<close>, failed or not) or a call of
  \<^verbatim>\<open>DoSecondary\<close> leaves behind.
\<close>

inductive reachable :: "sentinel \<Rightarrow> bool" where
  constructed:
    "NewSentinel cf pf rk0 rk1 rk2 respS respC pconn primaryName addrs = Inr sc \<Longrightarrow> reachable sc"
| sentinels_pass:
    "reachable sc \<Longrightarrow> ensureSentinelAddrs sc cn resp = (r, sc') \<Longrightarrow> reachable sc'"
| clients_pass:
    "reachable sc \<Longrightarrow> ensureClients pf rk1 rk2 resp sc = (r, sc', tr) \<Longrightarrow> reachable sc'"
| secondary_call:
    "reachable sc \<Longrightarrow> DoSecondary pf rk id act sc = (r, sc', tr) \<Longrightarrow> reachable sc'"

section \<open>Invariants of the published topology\<close>

text \<open>
  The pools of a Sentinel that is not closed are in order when the keys of
  \<^verbatim>\<open>sc.clients\<close> are pairwise distinct (the list is a map) and no entry is nil; the
  topology is in order when moreover the primary's address is one of the keys.
\<close>

definition pools_ok :: "sentinel \<Rightarrow> bool" where
  "pools_ok sc \<longleftrightarrow> \<not> closed sc \<and> distinct (map fst (clients sc)) \<and> None \<notin> snd ` set (clients sc)"

definition topology_ok :: "sentinel \<Rightarrow> bool" where
  "topology_ok sc \<longleftrightarrow> pools_ok sc \<and> has_key (clients sc) (primAddr sc)"

section \<open>Example states\<close>

text \<open>
  Concrete states and collaborators at which the theorems below are evaluated. They
  follow the scenarios of the specification: two bootstrap Sentinels of which only the
  second answers, a primary at \<open>10.0.0.10:6379\<close> with a replica at
  \<open>10.0.0.11:6379\<close>, and a peer Sentinel at \<open>10.0.0.3:26379\<close>.
  \<open>ex_boot_state\<close> is the state in which \<^verbatim>\<open>NewSentinel\<close> calls \<^verbatim>\<open>ensureClients\<close>,
  \<open>ex_state\<close> the state it returns, and \<open>ex_shared_state\<close> the state after a pass
  in which a second replica, \<open>10.0.0.12:6379\<close>, has appeared. \<open>ex_rank\<close> visits every
  map in the order of its list.
\<close>

definition ex_dial_state :: sentinel where
  "ex_dial_state = \<lparr>closed = False, initAddrs = [''10.0.0.1:26379'', ''10.0.0.2:26379''],
     name = ''mymaster'', primAddr = '''', clients = [],
     sentinelAddrs = [(''10.0.0.3:26379'', True), (''10.0.0.4:26379'', True)]\<rparr>"

definition ex_rank :: "string \<Rightarrow> nat" where
  "ex_rank a = 0"

definition ex_boot_state :: sentinel where
  "ex_boot_state = \<lparr>closed = False, initAddrs = [''10.0.0.1:26379'', ''10.0.0.2:26379''],
     name = ''mymaster'', primAddr = '''', clients = [],
     sentinelAddrs = [(''10.0.0.2:26379'', True), (''10.0.0.3:26379'', True)]\<rparr>"

definition ex_topology :: "string gomap \<times> string gomap list" where
  "ex_topology = ([(''ip'', ''10.0.0.10''), (''port'', ''6379'')],
                  [[(''ip'', ''10.0.0.11''), (''port'', ''6379'')]])"

definition ex_pf_second_fails :: "string \<Rightarrow> error + client" where
  "ex_pf_second_fails a =
     (if a = ''10.0.0.10:6379'' then Inr 1 else Inl (ErrExternal ''connection refused''))"

definition ex_pf :: "string \<Rightarrow> error + client" where
  "ex_pf a = (if a = ''10.0.0.10:6379'' then Inr 1 else if a = ''10.0.0.11:6379'' then Inr 2 else Inr 3)"

definition ex_cf :: "nat \<Rightarrow> string \<Rightarrow> error + conn" where
  "ex_cf n a = (if a = ''10.0.0.2:26379'' then Inr \<lparr>conn_id = 7, conn_addr = a\<rparr>
                else Inl (ErrExternal ''connection refused''))"

definition ex_peers :: "string gomap list" where
  "ex_peers = [[(''ip'', ''10.0.0.3''), (''port'', ''26379'')]]"

definition ex_state :: sentinel where
  "ex_state = \<lparr>closed = False, initAddrs = [''10.0.0.1:26379'', ''10.0.0.2:26379''],
     name = ''mymaster'', primAddr = ''10.0.0.10:6379'',
     clients = [(''10.0.0.10:6379'', Some 1), (''10.0.0.11:6379'', Some 2)],
     sentinelAddrs = [(''10.0.0.2:26379'', True), (''10.0.0.3:26379'', True)]\<rparr>"

definition ex_topology_grown :: "string gomap \<times> string gomap list" where
  "ex_topology_grown = ([(''ip'', ''10.0.0.10''), (''port'', ''6379'')],
                  [[(''ip'', ''10.0.0.11''), (''port'', ''6379'')],
                   [(''ip'', ''10.0.0.12''), (''port'', ''6379'')]])"

definition ex_shared_state :: sentinel where
  "ex_shared_state = ex_state\<lparr>clients :=
     [(''10.0.0.10:6379'', Some 1), (''10.0.0.11:6379'', Some 2), (''10.0.0.12:6379'', Some 1)]\<rparr>"

section \<open>Properties of the dialer\<close>

lemma dial_known_all_fail:
  "(\<forall>i<length ks. isl (cf (n + i) (ks ! i))) \<Longrightarrow>
   dial_known cf n ks err =
     Inr (if ks = [] then err else Some (projl (cf (n + length ks - 1) (last ks))))"
proof (induction ks arbitrary: n err)
  case Nil
  then show ?case by simp
next
  case (Cons a as)
  from Cons.prems have h0: "isl (cf n a)" by force
  have ht: "\<forall>i<length as. isl (cf (Suc n + i) (as ! i))"
  proof (intro allI impI)
    fix i assume "i < length as"
    then have "isl (cf (n + Suc i) ((a # as) ! Suc i))"
      using Cons.prems by (metis Suc_less_eq length_Cons)
    then show "isl (cf (Suc n + i) (as ! i))" by simp
  qed
  from h0 obtain e where e: "cf n a = Inl e" by (cases "cf n a") auto
  show ?case using Cons.IH [OF ht, of "Some e"] e by (auto simp: last_conv_nth)
qed

lemma dial_init_all_fail:
  "(\<forall>j<length as. isl (cf (n + j) (as ! j))) \<Longrightarrow> dial_init cf n as = None"
proof (induction as arbitrary: n)
  case Nil
  then show ?case by simp
next
  case (Cons a as)
  from Cons.prems have h0: "isl (cf n a)" by force
  have ht: "\<forall>j<length as. isl (cf (Suc n + j) (as ! j))"
  proof (intro allI impI)
    fix j assume "j < length as"
    then have "isl (cf (n + Suc j) ((a # as) ! Suc j))"
      using Cons.prems by (metis Suc_less_eq length_Cons)
    then show "isl (cf (Suc n + j) (as ! j))" by simp
  qed
  from h0 obtain e where e: "cf n a = Inl e" by (cases "cf n a") auto
  show ?case using Cons.IH [OF ht] e by simp
qed

lemma dial_init_first_success:
  "j < length as \<Longrightarrow> cf (n + j) (as ! j) = Inr c \<Longrightarrow> (\<forall>i<j. isl (cf (n + i) (as ! i))) \<Longrightarrow>
   dial_init cf n as = Some c"
proof (induction as arbitrary: n j)
  case Nil
  then show ?case by simp
next
  case (Cons a as)
  show ?case
  proof (cases j)
    case 0
    with Cons.prems show ?thesis by simp
  next
    case (Suc k)
    with Cons.prems have h0: "isl (cf n a)" by force
    then obtain e where e: "cf n a = Inl e" by (cases "cf n a") auto
    have k: "k < length as" using Cons.prems Suc by simp
    have ck: "cf (Suc n + k) (as ! k) = Inr c" using Cons.prems Suc by simp
    have pre: "\<forall>i<k. isl (cf (Suc n + i) (as ! i))"
    proof (intro allI impI)
      fix i assume "i < k"
      then have "isl (cf (n + Suc i) ((a # as) ! Suc i))"
        using Cons.prems Suc by (metis Suc_less_eq)
      then show "isl (cf (Suc n + i) (as ! i))" by simp
    qed
    show ?thesis using Cons.IH [OF k ck pre] e by simp
  qed
qed

text \<open>
  Claim C9. When \<^verbatim>\<open>sc.sentinelAddrs\<close> is empty and every dial of a bootstrap address
  fails, \<^verbatim>\<open>dialSentinel\<close> on a Sentinel that is not closed returns a nil connection
  together with a nil error: the first loop never ran, so the error it would have left
  is still nil, and the errors of the bootstrap loop are dropped.
\<close>

theorem dialSentinel_empty_known_nil_nil:
  assumes "\<not> closed sc" and "sentinelAddrs sc = []"
    and "\<forall>j<length (initAddrs sc). isl (cf j (initAddrs sc ! j))"
  shows "dialSentinel cf rk sc = (None, None)"
proof -
  have "dial_init cf 0 (initAddrs sc) = None"
    using assms(3) by (intro dial_init_all_fail) simp
  then show ?thesis using assms(1,2) by (simp add: dialSentinel_def range_order_def)
qed

theorem dialSentinel_empty_known_nil_nil_witness:
  "dialSentinel (\<lambda>n a. Inl (ErrExternal ''connection refused'')) (\<lambda>a. 0)
     \<lparr>closed = False, initAddrs = [''10.0.0.1:26379'', ''10.0.0.2:26379''], name = ''mymaster'',
      primAddr = '''', clients = [], sentinelAddrs = []\<rparr> = (None, None)"
  using dialSentinel_empty_known_nil_nil
    [of "\<lparr>closed = False, initAddrs = [''10.0.0.1:26379'', ''10.0.0.2:26379''], name = ''mymaster'',
      primAddr = '''', clients = [], sentinelAddrs = []\<rparr>"
      "\<lambda>n a. Inl (ErrExternal ''connection refused'')" "\<lambda>a. 0"]
  by simp

text \<open>
  Claim C4. Let \<open>ks\<close> be the known Sentinel addresses in the order the first loop visits
  them, and let every dial of that loop fail. If the set is not empty and every
  bootstrap dial fails as well, \<^verbatim>\<open>dialSentinel\<close> returns no connection and the error of
  the last dial of the first loop, whatever the errors of the bootstrap dials are. If
  instead bootstrap dial number \<open>j\<close> is the first to succeed, with connection \<open>c\<close>, it
  returns \<open>c\<close> and no error.
\<close>

theorem dialSentinel_returns_known_error:
  assumes "\<not> closed sc" and "ks = map fst (range_order rk (sentinelAddrs sc))"
    and "\<forall>i<length ks. isl (cf i (ks ! i))"
  shows "((\<forall>j<length (initAddrs sc). isl (cf (length ks + j) (initAddrs sc ! j))) \<and> ks \<noteq> [] \<longrightarrow>
            dialSentinel cf rk sc = (None, Some (projl (cf (length ks - 1) (last ks))))) \<and>
         (\<forall>j c. j < length (initAddrs sc) \<and> cf (length ks + j) (initAddrs sc ! j) = Inr c \<and>
                 (\<forall>i<j. isl (cf (length ks + i) (initAddrs sc ! i))) \<longrightarrow>
            dialSentinel cf rk sc = (Some c, None))"
proof -
  have known: "dial_known cf 0 ks None =
      Inr (if ks = [] then None else Some (projl (cf (length ks - 1) (last ks))))"
    using dial_known_all_fail [of ks cf 0 None] assms(3) by simp
  have a: "(\<forall>j<length (initAddrs sc). isl (cf (length ks + j) (initAddrs sc ! j))) \<and> ks \<noteq> [] \<longrightarrow>
            dialSentinel cf rk sc = (None, Some (projl (cf (length ks - 1) (last ks))))"
  proof
    assume h: "(\<forall>j<length (initAddrs sc). isl (cf (length ks + j) (initAddrs sc ! j))) \<and> ks \<noteq> []"
    then have "dial_init cf (length ks) (initAddrs sc) = None"
      by (intro dial_init_all_fail) simp
    then show "dialSentinel cf rk sc = (None, Some (projl (cf (length ks - 1) (last ks))))"
      using known h assms(1) unfolding dialSentinel_def assms(2) [symmetric] by (simp add: Let_def)
  qed
  have b: "\<forall>j c. j < length (initAddrs sc) \<and> cf (length ks + j) (initAddrs sc ! j) = Inr c \<and>
                 (\<forall>i<j. isl (cf (length ks + i) (initAddrs sc ! i))) \<longrightarrow>
            dialSentinel cf rk sc = (Some c, None)"
  proof (intro allI impI)
    fix j c
    assume h: "j < length (initAddrs sc) \<and> cf (length ks + j) (initAddrs sc ! j) = Inr c \<and>
                 (\<forall>i<j. isl (cf (length ks + i) (initAddrs sc ! i)))"
    then have "dial_init cf (length ks) (initAddrs sc) = Some c"
      using dial_init_first_success [of j "initAddrs sc" cf "length ks" c] by blast
    then show "dialSentinel cf rk sc = (Some c, None)"
      using known assms(1) unfolding dialSentinel_def assms(2) [symmetric] by (simp add: Let_def)
  qed
  from a b show ?thesis by blast
qed

theorem dialSentinel_returns_known_error_witness:
  "dialSentinel (\<lambda>n a. Inl (ErrExternal (''dial '' @ a)))
       (\<lambda>a. if a = ''10.0.0.3:26379'' then 1 else 0) ex_dial_state
     = (None, Some (ErrExternal ''dial 10.0.0.3:26379'')) \<and>
   dialSentinel
       (\<lambda>n a. if n = 3 then Inr \<lparr>conn_id = 7, conn_addr = a\<rparr> else Inl (ErrExternal (''dial '' @ a)))
       (\<lambda>a. if a = ''10.0.0.3:26379'' then 1 else 0) ex_dial_state
     = (Some \<lparr>conn_id = 7, conn_addr = ''10.0.0.2:26379''\<rparr>, None)"
proof -
  let ?rk = "\<lambda>a. if a = ''10.0.0.3:26379'' then (1::nat) else 0"
  let ?ks = "[''10.0.0.4:26379'', ''10.0.0.3:26379'']"
  let ?cf1 = "\<lambda>(n::nat) a. (Inl (ErrExternal (''dial '' @ a)) :: error + conn)"
  let ?cf2 = "\<lambda>(n::nat) a.
     if n = 3 then Inr \<lparr>conn_id = 7, conn_addr = a\<rparr> else Inl (ErrExternal (''dial '' @ a))"
  have c: "\<not> closed ex_dial_state" by (simp add: ex_dial_state_def)
  have ks: "?ks = map fst (range_order ?rk (sentinelAddrs ex_dial_state))"
    by (simp add: ex_dial_state_def range_order_def)
  have f1: "\<forall>i<length ?ks. isl (?cf1 i (?ks ! i))" by simp
  have f2: "\<forall>i<length ?ks. isl (?cf2 i (?ks ! i))" by simp
  have i: "initAddrs ex_dial_state = [''10.0.0.1:26379'', ''10.0.0.2:26379'']"
    by (simp add: ex_dial_state_def)
  have a: "dialSentinel ?cf1 ?rk ex_dial_state = (None, Some (ErrExternal ''dial 10.0.0.3:26379''))"
    using dialSentinel_returns_known_error
      [where cf = ?cf1 and ks = ?ks and rk = ?rk and sc = ex_dial_state, OF c ks f1]
    by (simp add: i)
  have b: "dialSentinel ?cf2 ?rk ex_dial_state
             = (Some \<lparr>conn_id = 7, conn_addr = ''10.0.0.2:26379''\<rparr>, None)"
  proof -
    have "1 < length (initAddrs ex_dial_state) \<and>
          ?cf2 (length ?ks + 1) (initAddrs ex_dial_state ! 1)
            = Inr \<lparr>conn_id = 7, conn_addr = ''10.0.0.2:26379''\<rparr> \<and>
          (\<forall>i<1. isl (?cf2 (length ?ks + i) (initAddrs ex_dial_state ! i)))"
      by (simp add: i)
    then show ?thesis
      using dialSentinel_returns_known_error
        [where cf = ?cf2 and ks = ?ks and rk = ?rk and sc = ex_dial_state, OF c ks f2]
      by blast
  qed
  from a b show ?thesis by simp
qed

section \<open>Facts about maps and visiting orders\<close>

lemma range_order_set [simp]: "set (range_order rk m) = set m"
  by (simp add: range_order_def)

lemma range_order_mset [simp]: "mset (range_order rk m) = mset m"
  by (simp add: range_order_def)

lemma range_order_distinct: "distinct (map fst m) \<Longrightarrow> distinct (map fst (range_order rk m))"
proof -
  assume d: "distinct (map fst m)"
  have "mset (map fst (range_order rk m)) = mset (map fst m)" by simp
  then show ?thesis using d by (metis mset_eq_imp_distinct_iff)
qed

lemma range_order_map_of: "distinct (map fst m) \<Longrightarrow> map_of (range_order rk m) = map_of m"
  using map_of_inject_set [of "range_order rk m" m] range_order_distinct [of m rk] by simp

lemma range_order_keys [simp]: "fst ` set (range_order rk m) = fst ` set m"
  by simp

lemma client_get_update:
  "client_get (AList.update a v m) k = (if k = a then v else client_get m k)"
  by (simp add: client_get_def update_conv')

lemma has_key_update: "has_key (AList.update a v m) k \<longleftrightarrow> k = a \<or> has_key m k"
  by (simp add: has_key_def update_conv')

lemma has_key_iff: "has_key m k \<longleftrightarrow> k \<in> fst ` set m"
  by (simp add: has_key_def map_of_eq_None_iff)

lemma filter_update_other:
  "\<not> Q k \<Longrightarrow> filter (\<lambda>e. Q (fst e)) (AList.update k v m) = filter (\<lambda>e. Q (fst e)) m"
  by (induction m) auto

lemma set_update_subset: "set (AList.update k v m) \<subseteq> insert (k, v) (set m)"
  by (induction m) auto

lemma client_get_None_absent:
  "None \<notin> snd ` set m \<Longrightarrow> client_get m k = None \<Longrightarrow> k \<notin> fst ` set m"
proof
  assume nn: "None \<notin> snd ` set m" and g: "client_get m k = None" and "k \<in> fst ` set m"
  then obtain v where v: "map_of m k = Some v"
    by (metis map_of_eq_None_iff not_Some_eq)
  then have "(k, v) \<in> set m" by (rule map_of_SomeD)
  then have "v \<in> snd ` set m" by force
  moreover have "v = None" using g v by (simp add: client_get_def)
  ultimately show False using nn by simp
qed

lemma client_get_Some_mem: "client_get m k = Some c \<Longrightarrow> (k, Some c) \<in> set m"
  by (auto simp: client_get_def split: option.splits dest: map_of_SomeD)

lemma client_get_distinct_mem:
  "distinct (map fst m) \<Longrightarrow> (k, v) \<in> set m \<Longrightarrow> client_get m k = v"
  by (simp add: client_get_def)

text \<open>Every order of the entries of a map is the visiting order of some rank.\<close>

lemma position_ranks:
  "distinct zs \<Longrightarrow> map (\<lambda>k. length (takeWhile (\<lambda>x. x \<noteq> k) zs)) zs = [0..<length zs]"
proof (induction zs rule: rev_induct)
  case Nil
  then show ?case by simp
next
  case (snoc z zs)
  have d: "distinct zs" and z: "z \<notin> set zs" using snoc.prems by auto
  have 1: "map (\<lambda>k. length (takeWhile (\<lambda>x. x \<noteq> k) (zs @ [z]))) zs
         = map (\<lambda>k. length (takeWhile (\<lambda>x. x \<noteq> k) zs)) zs"
    by (rule map_cong) (auto simp: takeWhile_append1)
  have "takeWhile (\<lambda>x. x \<noteq> z) (zs @ [z]) = zs @ takeWhile (\<lambda>x. x \<noteq> z) [z]"
    by (rule takeWhile_append2) (use z in auto)
  then have 2: "length (takeWhile (\<lambda>x. x \<noteq> z) (zs @ [z])) = length zs" by simp
  show ?case using snoc.IH [OF d] 1 2 by simp
qed

lemma filter_eq_single: "distinct xs \<Longrightarrow> k \<in> set xs \<Longrightarrow> filter (\<lambda>x. k = x) xs = [k]"
  by (induction xs) (auto simp: filter_empty_conv)

lemma range_order_any:
  assumes "distinct (map fst m)" and "mset ys = mset m"
  shows "\<exists>rk. range_order rk m = ys"
proof -
  let ?zs = "map fst ys"
  let ?rk = "\<lambda>k. length (takeWhile (\<lambda>x. x \<noteq> k) ?zs)"
  let ?f = "\<lambda>e. ?rk (fst e)"
  have "mset (map fst ys) = mset (map fst m)" using assms(2) by simp
  then have dz: "distinct ?zs" using assms(1) by (metis mset_eq_imp_distinct_iff)
  have ranks: "map ?f ys = [0..<length ys]"
    using position_ranks [OF dz] by (simp add: comp_def)
  then have srt: "sorted (map ?f ys)" by simp
  have dy: "distinct ys" using dz by (simp add: distinct_map)
  have dm: "distinct m" using assms(1) by (simp add: distinct_map)
  have inj: "inj_on ?f (set ys)"
  proof -
    have "distinct (map ?f ys)" using ranks by simp
    then show ?thesis by (simp add: distinct_map)
  qed
  have same: "set ys = set m" using assms(2) by (rule mset_eq_setD)
  have flt: "\<And>k. k \<in> set ys \<Longrightarrow> filter (\<lambda>x. ?f k = ?f x) ys = filter (\<lambda>x. ?f k = ?f x) m"
  proof -
    fix k assume k: "k \<in> set ys"
    have a: "filter (\<lambda>x. ?f k = ?f x) ys = filter (\<lambda>x. k = x) ys"
      by (rule filter_cong) (use inj k in \<open>auto dest: inj_onD\<close>)
    have b: "filter (\<lambda>x. ?f k = ?f x) m = filter (\<lambda>x. k = x) m"
      by (rule filter_cong) (use inj k same in \<open>auto dest: inj_onD\<close>)
    have "filter (\<lambda>x. k = x) ys = [k]" using dy k by (rule filter_eq_single)
    moreover have "filter (\<lambda>x. k = x) m = [k]" using dm k same by (simp add: filter_eq_single)
    ultimately show "filter (\<lambda>x. ?f k = ?f x) ys = filter (\<lambda>x. ?f k = ?f x) m" using a b by simp
  qed
  have "sort_key ?f m = ys" using assms(2) flt srt by (rule properties_for_sort_key)
  then have "range_order ?rk m = ys" by (simp add: range_order_def)
  then show ?thesis by blast
qed

lemma ex_rank_order [simp]: "range_order ex_rank m = m"
  by (simp add: range_order_def ex_rank_def sort_key_const)

lemma ex_addrs [simp]:
  "sentinelMtoAddr [(''ip'', ''10.0.0.10''), (''port'', ''6379'')] cmd = Inr ''10.0.0.10:6379''"
  "sentinelMtoAddr [(''ip'', ''10.0.0.11''), (''port'', ''6379'')] cmd = Inr ''10.0.0.11:6379''"
  "sentinelMtoAddr [(''ip'', ''10.0.0.12''), (''port'', ''6379'')] cmd = Inr ''10.0.0.12:6379''"
  by (simp_all add: sentinelMtoAddr_def str_get_def JoinHostPort_def)

section \<open>Properties of the projection and of the response checks\<close>

lemma fill_Secondaries:
  "Secondaries (fill_replicaSet p es rs) = Secondaries rs @ map snd (filter (\<lambda>e. fst e \<noteq> p) es)"
  by (induction es arbitrary: rs) auto

lemma fill_Primary:
  "distinct (map fst es) \<Longrightarrow>
   Primary (fill_replicaSet p es rs) = (case map_of es p of None \<Rightarrow> Primary rs | Some c \<Rightarrow> c)"
proof (induction es arbitrary: rs)
  case Nil
  then show ?case by simp
next
  case (Cons e es)
  obtain a c where e: "e = (a, c)" by (cases e)
  show ?case
  proof (cases "a = p")
    case True
    then have "map_of es p = None" using Cons.prems e by (simp add: map_of_eq_None_iff)
    then show ?thesis using Cons e True by simp
  next
    case False
    then show ?thesis using Cons e by (simp split: option.splits)
  qed
qed

text \<open>
  Claim C7. A call of \<^verbatim>\<open>Clients\<close> that returns no error returns a map with exactly one
  entry. Its key is the current primary's address. In its value, \<open>Primary\<close> is what
  \<^verbatim>\<open>sc.clients\<close> holds for the primary's address, and \<open>Secondaries\<close> are the pools of
  all entries with another key, in the order the loop visits them (so, as a multiset,
  the pools of all other entries of the map).
\<close>

theorem Clients_single_entry:
  assumes "Clients rk sc = (m, None)" and "distinct (map fst (clients sc))"
  shows "\<exists>rs. m = [(primAddr sc, rs)] \<and>
           Primary rs = client_get (clients sc) (primAddr sc) \<and>
           Secondaries rs = map snd (filter (\<lambda>e. fst e \<noteq> primAddr sc) (range_order rk (clients sc))) \<and>
           mset (Secondaries rs) = mset (map snd (filter (\<lambda>e. fst e \<noteq> primAddr sc) (clients sc)))"
proof -
  let ?rs = "fill_replicaSet (primAddr sc) (range_order rk (clients sc)) \<lparr>Primary = None, Secondaries = []\<rparr>"
  have nc: "\<not> closed sc" using assms(1) by (auto simp: Clients_def split: if_splits)
  then have m: "m = [(primAddr sc, ?rs)]" using assms(1) by (simp add: Clients_def)
  have p: "Primary ?rs = client_get (clients sc) (primAddr sc)"
    using fill_Primary [OF range_order_distinct [OF assms(2)], of "primAddr sc" rk]
    by (simp add: range_order_map_of [OF assms(2)] client_get_def split: option.splits)
  have s: "Secondaries ?rs = map snd (filter (\<lambda>e. fst e \<noteq> primAddr sc) (range_order rk (clients sc)))"
    by (simp add: fill_Secondaries)
  have "mset (Secondaries ?rs) = mset (map snd (filter (\<lambda>e. fst e \<noteq> primAddr sc) (clients sc)))"
    by (simp add: s)
  with m p s show ?thesis by blast
qed

lemma sentinel_keys_fold:
  "fst ` set (fold (\<lambda>m acc. AList.update (f m) True acc) mm acc0) = fst ` set acc0 \<union> f ` set mm"
  by (induction mm arbitrary: acc0) (auto simp: dom_update)

text \<open>
  Claim C10. When the \<^verbatim>\<open>SENTINEL SENTINELS\<close> command succeeds on a Sentinel that is not
  closed, \<^verbatim>\<open>ensureSentinelAddrs\<close> returns no error whatever the peer maps contain, and
  replaces \<^verbatim>\<open>sc.sentinelAddrs\<close> by a set whose keys are the address of the connection
  and the joined \<open>ip\<close> and \<open>port\<close> of every peer map, unchecked (a missing field reads as the
  empty string); a peer map whose \<open>ip\<close> and \<open>port\<close> are both missing or empty
  contributes the key \<open>:\<close>.
\<close>

theorem ensureSentinelAddrs_no_validation:
  assumes "\<not> closed sc"
  shows "\<exists>addrs. ensureSentinelAddrs sc cn (Inr mm) = (None, sc\<lparr>sentinelAddrs := addrs\<rparr>) \<and>
           fst ` set addrs =
             insert (conn_addr cn) ((\<lambda>m. JoinHostPort (str_get m ''ip'') (str_get m ''port'')) ` set mm) \<and>
           (\<forall>m\<in>set mm. str_get m ''ip'' = '''' \<and> str_get m ''port'' = '''' \<longrightarrow> '':'' \<in> fst ` set addrs)"
proof -
  let ?f = "\<lambda>m. JoinHostPort (str_get m ''ip'') (str_get m ''port'')"
  let ?addrs = "fold (\<lambda>m acc. AList.update (?f m) True acc) mm [(conn_addr cn, True)]"
  have r: "ensureSentinelAddrs sc cn (Inr mm) = (None, sc\<lparr>sentinelAddrs := ?addrs\<rparr>)"
    using assms by (simp add: ensureSentinelAddrs_def)
  have k: "fst ` set ?addrs = insert (conn_addr cn) (?f ` set mm)"
    using sentinel_keys_fold [of ?f mm "[(conn_addr cn, True)]"] by simp
  have d: "\<forall>m\<in>set mm. str_get m ''ip'' = '''' \<and> str_get m ''port'' = '''' \<longrightarrow> '':'' \<in> fst ` set ?addrs"
  proof (intro ballI impI)
    fix m assume m: "m \<in> set mm" and h: "str_get m ''ip'' = '''' \<and> str_get m ''port'' = ''''"
    then have "?f m = '':''" by (simp add: JoinHostPort_def)
    then show "'':'' \<in> fst ` set ?addrs" using m k by (metis (no_types, lifting) image_eqI insertI2)
  qed
  from r k d show ?thesis by blast
qed

lemma desired_keys_malformed:
  "\<exists>m\<in>set ms. str_get m ''ip'' = '''' \<or> str_get m ''port'' = '''' \<Longrightarrow>
   \<exists>m\<in>set ms. (str_get m ''ip'' = '''' \<or> str_get m ''port'' = '''') \<and>
      desired_keys ms nc = Inl (ErrMalformed ''SENTINEL SLAVES'' m)"
proof (induction ms arbitrary: nc)
  case Nil
  then show ?case by simp
next
  case (Cons m ms)
  show ?case
  proof (cases "str_get m ''ip'' = '''' \<or> str_get m ''port'' = ''''")
    case True
    then show ?thesis by (auto simp: sentinelMtoAddr_def)
  next
    case False
    then have "\<exists>m\<in>set ms. str_get m ''ip'' = '''' \<or> str_get m ''port'' = ''''"
      using Cons.prems by auto
    from Cons.IH [OF this] show ?thesis using False by (auto simp: sentinelMtoAddr_def)
  qed
qed

text \<open>
  Claim C5. If the \<^verbatim>\<open>SENTINEL MASTER\<close> response or an element of the
  \<^verbatim>\<open>SENTINEL SLAVES\<close> response has a missing or empty \<open>ip\<close> or \<open>port\<close>,
  \<^verbatim>\<open>ensureClients\<close> returns the malformed-response error for such a map, leaves every
  field of the Sentinel as it was and produces no event (no pool is created or closed,
  nothing is committed).
\<close>

theorem ensureClients_malformed_no_commit:
  assumes "str_get primM ''ip'' = '''' \<or> str_get primM ''port'' = '''' \<or>
           (\<exists>m\<in>set secMM. str_get m ''ip'' = '''' \<or> str_get m ''port'' = '''')"
  shows "\<exists>cmd m. ensureClients pf rk1 rk2 (Inr (primM, secMM)) sc = (Some (ErrMalformed cmd m), sc, []) \<and>
           (str_get m ''ip'' = '''' \<or> str_get m ''port'' = '''') \<and>
           (cmd = ''SENTINEL MASTER'' \<and> m = primM \<or> cmd = ''SENTINEL SLAVES'' \<and> m \<in> set secMM)"
proof (cases "str_get primM ''ip'' = '''' \<or> str_get primM ''port'' = ''''")
  case True
  then have "ensureClients pf rk1 rk2 (Inr (primM, secMM)) sc
      = (Some (ErrMalformed ''SENTINEL MASTER'' primM), sc, [])"
    by (auto simp: ensureClients_def sentinelMtoAddr_def)
  with True show ?thesis by blast
next
  case False
  then have "\<exists>m\<in>set secMM. str_get m ''ip'' = '''' \<or> str_get m ''port'' = ''''"
    using assms by blast
  from desired_keys_malformed [OF this]
  obtain m where m: "m \<in> set secMM" "str_get m ''ip'' = '''' \<or> str_get m ''port'' = ''''"
    and dk: "desired_keys secMM [(JoinHostPort (str_get primM ''ip'') (str_get primM ''port''), None)]
      = Inl (ErrMalformed ''SENTINEL SLAVES'' m)"
    by blast
  have "ensureClients pf rk1 rk2 (Inr (primM, secMM)) sc
      = (Some (ErrMalformed ''SENTINEL SLAVES'' m), sc, [])"
    using False dk by (simp add: ensureClients_def sentinelMtoAddr_def)
  with m show ?thesis by blast
qed

section \<open>Properties of client\<close>

lemma client_rlock_addr: "addr \<noteq> '''' \<Longrightarrow>
  client_rlock rk sc addr = (addr, client_get (clients sc) (primAddr sc))"
  by (simp add: client_rlock_def)

text \<open>The shape of every result of client when no other task interferes.\<close>

lemma client_id_cases:
  assumes "client pf rk id sc addr = (r, sc1, tr)"
  obtains
    (is_closed) "closed sc" "r = Inl ErrClosed" "sc1 = sc" "tr = []"
  | (found) a c where "\<not> closed sc" "client_rlock rk sc addr = (a, Some c)" "r = Inr c" "sc1 = sc" "tr = []"
  | (none) "\<not> closed sc" "client_rlock rk sc addr = ('''', None)" "r = Inl ErrNoClients" "sc1 = sc" "tr = []"
  | (pf_failed) a e where "\<not> closed sc" "client_rlock rk sc addr = (a, None)" "a \<noteq> ''''"
      "pf a = Inl e" "r = Inl e" "sc1 = sc" "tr = [EvPoolFunc a (Inl e)]"
  | (installed) a n where "\<not> closed sc" "client_rlock rk sc addr = (a, None)" "a \<noteq> ''''"
      "pf a = Inr n" "client_get (clients sc) a = None" "r = Inr n"
      "sc1 = sc\<lparr>clients := AList.update a (Some n) (clients sc)\<rparr>"
      "tr = [EvPoolFunc a (Inr n), EvInstall a n]"
  | (lost) a n c where "\<not> closed sc" "client_rlock rk sc addr = (a, None)" "a \<noteq> ''''"
      "pf a = Inr n" "client_get (clients sc) a = Some c" "r = Inr c" "sc1 = sc"
      "tr = [EvPoolFunc a (Inr n), EvClose n]"
proof (cases "closed sc")
  case True
  then show ?thesis using assms by (intro is_closed) (auto simp: client_def)
next
  case nc: False
  obtain a x where rl: "client_rlock rk sc addr = (a, x)" by (cases "client_rlock rk sc addr")
  show ?thesis
  proof (cases x)
    case (Some c)
    then show ?thesis using assms nc rl by (intro found [of a c]) (auto simp: client_def)
  next
    case None
    show ?thesis
    proof (cases "a = ''''")
      case True
      then show ?thesis using assms nc rl None by (intro none) (auto simp: client_def)
    next
      case ne: False
      show ?thesis
      proof (cases "pf a")
        case (Inl e)
        then show ?thesis using assms nc rl None ne by (intro pf_failed [of a e]) (auto simp: client_def)
      next
        case (Inr n)
        show ?thesis
        proof (cases "client_get (clients sc) a")
          case cg: None
          then show ?thesis using assms nc rl None ne Inr by (intro installed [of a n]) (auto simp: client_def)
        next
          case (Some c)
          then show ?thesis using assms nc rl None ne Inr by (intro lost [of a n c]) (auto simp: client_def)
        qed
      qed
    qed
  qed
qed



subsection \<open>Effects of client without interference\<close>

lemma client_id_frame:
  assumes "client pf rk id sc addr = (r, sc1, tr)"
  shows "sc1 = sc\<lparr>clients := clients sc1\<rparr> \<and> EvCommit \<notin> set tr"
  using assms by (cases rule: client_id_cases) auto

lemma client_id_keeps:
  assumes "client pf rk id sc addr = (r, sc1, tr)" and "client_get (clients sc) k = Some c"
  shows "client_get (clients sc1) k = Some c"
  using assms by (cases rule: client_id_cases) (auto simp: client_get_update)

lemma client_id_fail:
  assumes "client pf rk id sc addr = (Inl e, sc1, tr)"
  shows "sc1 = sc"
  using assms by (cases rule: client_id_cases) auto

lemma client_id_pf_event:
  assumes "client pf rk id sc addr = (r, sc1, tr)" and "EvPoolFunc x (Inl e) \<in> set tr"
    and "addr \<noteq> ''''"
  shows "x = addr \<and> r = Inl e \<and> pf addr = Inl e"
  using assms by (cases rule: client_id_cases) (auto simp: client_rlock_addr)

lemma client_id_ok_no_fail:
  assumes "client pf rk id sc addr = (Inr c, sc1, tr)"
  shows "EvPoolFunc x (Inl e) \<notin> set tr"
  using assms by (cases rule: client_id_cases) auto

lemma client_id_new_keys:
  assumes "client pf rk id sc addr = (r, sc1, tr)" and "has_key (clients sc1) k"
  shows "has_key (clients sc) k \<or> (\<exists>n. EvInstall k n \<in> set tr \<and> pf k = Inr n)"
  using assms by (cases rule: client_id_cases) (auto simp: has_key_update)

lemma client_id_old_keys:
  assumes "client pf rk id sc addr = (r, sc1, tr)" and "has_key (clients sc) k"
  shows "has_key (clients sc1) k"
  using assms by (cases rule: client_id_cases) (auto simp: has_key_update)

lemma client_id_filter_other:
  assumes "client pf rk id sc addr = (r, sc1, tr)" and "addr \<noteq> ''''" and "\<not> Q addr"
  shows "filter (\<lambda>e. Q (fst e)) (clients sc1) = filter (\<lambda>e. Q (fst e)) (clients sc)"
  using assms by (cases rule: client_id_cases) (auto simp: client_rlock_addr filter_update_other)

lemma client_id_pools_ok:
  assumes "client pf rk id sc addr = (r, sc1, tr)" and "pools_ok sc"
  shows "pools_ok sc1"
  using assms
proof (cases rule: client_id_cases)
  case (installed a n)
  have "a \<notin> fst ` set (clients sc)"
    using installed(5) assms(2) by (auto simp: pools_ok_def dest: client_get_None_absent)
  moreover have "set (AList.update a (Some n) (clients sc)) \<subseteq> insert (a, Some n) (set (clients sc))"
    by (rule set_update_subset)
  ultimately show ?thesis using installed assms(2)
    by (auto simp: pools_ok_def distinct_update)
qed auto

text \<open>With the primary's pool in place, client returns in its read-lock section.\<close>

lemma client_primary_present:
  assumes "\<not> closed sc" and "addr \<noteq> ''''" and "client_get (clients sc) (primAddr sc) = Some c"
  shows "client pf rk env sc addr = (Inr c, sc, [])"
  using assms by (simp add: client_def client_rlock_addr)

section \<open>Properties of the loops of a reconciliation pass\<close>

subsection \<open>The loop over the desired keys\<close>

lemma ensure_each_Cons_cases:
  assumes "ensure_each pf rk (a # as) nc sc = (r, sc', tr)"
  obtains (fail) e where "client pf rk id sc a = (Inl e, sc', tr)" "r = Inl (ErrCreatingClient a e)"
  | (ok) c sc1 tr1 tr2 where "client pf rk id sc a = (Inr c, sc1, tr1)"
      "ensure_each pf rk as (AList.update a (Some c) nc) sc1 = (r, sc', tr2)" "tr = tr1 @ tr2"
proof -
  obtain r1 sc1 tr1 where c: "client pf rk id sc a = (r1, sc1, tr1)"
    by (cases "client pf rk id sc a") auto
  show ?thesis
  proof (cases r1)
    case (Inl e)
    then show ?thesis using assms c by (intro fail [of e]) auto
  next
    case (Inr x)
    obtain r2 sc2 tr2 where e: "ensure_each pf rk as (AList.update a (Some x) nc) sc1 = (r2, sc2, tr2)"
      by (cases "ensure_each pf rk as (AList.update a (Some x) nc) sc1") auto
    show ?thesis using assms c Inr e by (intro ok [of x sc1 tr1 tr2]) auto
  qed
qed

lemma ensure_each_frame:
  "ensure_each pf rk ks nc sc = (r, sc', tr) \<Longrightarrow>
   sc' = sc\<lparr>clients := clients sc'\<rparr> \<and> EvCommit \<notin> set tr"
proof (induction ks arbitrary: nc sc r sc' tr)
  case Nil
  then show ?case by simp
next
  case (Cons a as)
  from Cons.prems show ?case
  proof (cases rule: ensure_each_Cons_cases)
    case (fail e)
    then show ?thesis using client_id_frame by blast
  next
    case (ok c sc1 tr1 tr2)
    have 1: "sc1 = sc\<lparr>clients := clients sc1\<rparr> \<and> EvCommit \<notin> set tr1"
      using ok(1) by (rule client_id_frame)
    have 2: "sc' = sc1\<lparr>clients := clients sc'\<rparr> \<and> EvCommit \<notin> set tr2"
      using ok(2) by (rule Cons.IH)
    have "sc' = sc\<lparr>clients := clients sc'\<rparr>"
      using 1 2 by (metis sentinel.update_convs(5) sentinel.surjective sentinel.select_convs)
    then show ?thesis using 1 2 ok(3) by simp
  qed
qed

lemma ensure_each_keeps:
  "ensure_each pf rk ks nc sc = (r, sc', tr) \<Longrightarrow> client_get (clients sc) k = Some c \<Longrightarrow>
   client_get (clients sc') k = Some c"
proof (induction ks arbitrary: nc sc r sc' tr)
  case Nil
  then show ?case by simp
next
  case (Cons a as)
  from Cons.prems(1) show ?case
  proof (cases rule: ensure_each_Cons_cases)
    case (fail e)
    then show ?thesis using client_id_keeps Cons.prems(2) by blast
  next
    case (ok x sc1 tr1 tr2)
    have "client_get (clients sc1) k = Some c"
      using ok(1) Cons.prems(2) by (rule client_id_keeps)
    with ok(2) show ?thesis by (rule Cons.IH)
  qed
qed

lemma ensure_each_old_keys:
  "ensure_each pf rk ks nc sc = (r, sc', tr) \<Longrightarrow> has_key (clients sc) k \<Longrightarrow> has_key (clients sc') k"
proof (induction ks arbitrary: nc sc r sc' tr)
  case Nil
  then show ?case by simp
next
  case (Cons a as)
  from Cons.prems(1) show ?case
  proof (cases rule: ensure_each_Cons_cases)
    case (fail e)
    then show ?thesis using client_id_old_keys Cons.prems(2) by blast
  next
    case (ok x sc1 tr1 tr2)
    have "has_key (clients sc1) k"
      using ok(1) Cons.prems(2) by (rule client_id_old_keys)
    with ok(2) show ?thesis by (rule Cons.IH)
  qed
qed

lemma ensure_each_new_keys:
  "ensure_each pf rk ks nc sc = (r, sc', tr) \<Longrightarrow> has_key (clients sc') k \<Longrightarrow>
   has_key (clients sc) k \<or> (\<exists>n. EvInstall k n \<in> set tr \<and> pf k = Inr n)"
proof (induction ks arbitrary: nc sc r sc' tr)
  case Nil
  then show ?case by simp
next
  case (Cons a as)
  from Cons.prems(1) show ?case
  proof (cases rule: ensure_each_Cons_cases)
    case (fail e)
    then show ?thesis using client_id_new_keys Cons.prems(2) by blast
  next
    case (ok x sc1 tr1 tr2)
    have "has_key (clients sc1) k \<or> (\<exists>n. EvInstall k n \<in> set tr2 \<and> pf k = Inr n)"
      using ok(2) Cons.prems(2) by (rule Cons.IH)
    then show ?thesis
    proof
      assume "has_key (clients sc1) k"
      with ok(1) have "has_key (clients sc) k \<or> (\<exists>n. EvInstall k n \<in> set tr1 \<and> pf k = Inr n)"
        by (rule client_id_new_keys)
      then show ?thesis using ok(3) by auto
    next
      assume "\<exists>n. EvInstall k n \<in> set tr2 \<and> pf k = Inr n"
      then show ?thesis using ok(3) by auto
    qed
  qed
qed

lemma ensure_each_pf_event:
  "ensure_each pf rk ks nc sc = (r, sc', tr) \<Longrightarrow> EvPoolFunc x (Inl e) \<in> set tr \<Longrightarrow>
   '''' \<notin> set ks \<Longrightarrow> r = Inl (ErrCreatingClient x e) \<and> pf x = Inl e \<and> x \<in> set ks"
proof (induction ks arbitrary: nc sc r sc' tr)
  case Nil
  then show ?case by simp
next
  case (Cons a as)
  have a: "a \<noteq> ''''" using Cons.prems(3) by auto
  from Cons.prems(1) show ?case
  proof (cases rule: ensure_each_Cons_cases)
    case (fail e')
    have "x = a \<and> Inl e' = (Inl e :: error + client) \<and> pf a = Inl e"
      using fail(1) Cons.prems(2) a by (rule client_id_pf_event)
    then show ?thesis using fail(2) by simp
  next
    case (ok c sc1 tr1 tr2)
    have "EvPoolFunc x (Inl e) \<notin> set tr1" using ok(1) by (rule client_id_ok_no_fail)
    then have "EvPoolFunc x (Inl e) \<in> set tr2" using Cons.prems(2) ok(3) by simp
    moreover have "'''' \<notin> set as" using Cons.prems(3) by simp
    ultimately have "r = Inl (ErrCreatingClient x e) \<and> pf x = Inl e \<and> x \<in> set as"
      using ok(2) Cons.IH by blast
    then show ?thesis by simp
  qed
qed

lemma ensure_each_filter_other:
  "ensure_each pf rk ks nc sc = (r, sc', tr) \<Longrightarrow> '''' \<notin> set ks \<Longrightarrow> \<forall>k\<in>set ks. \<not> Q k \<Longrightarrow>
   filter (\<lambda>e. Q (fst e)) (clients sc') = filter (\<lambda>e. Q (fst e)) (clients sc)"
proof (induction ks arbitrary: nc sc r sc' tr)
  case Nil
  then show ?case by simp
next
  case (Cons a as)
  have a: "a \<noteq> ''''" "\<not> Q a" using Cons.prems(2,3) by auto
  from Cons.prems(1) show ?case
  proof (cases rule: ensure_each_Cons_cases)
    case (fail e)
    then show ?thesis using client_id_filter_other [where Q = Q, OF fail(1) a] by simp
  next
    case (ok c sc1 tr1 tr2)
    have "filter (\<lambda>e. Q (fst e)) (clients sc') = filter (\<lambda>e. Q (fst e)) (clients sc1)"
      using ok(2) Cons.prems(2,3) by (intro Cons.IH) auto
    then show ?thesis using client_id_filter_other [where Q = Q, OF ok(1) a] by simp
  qed
qed

lemma ensure_each_pools_ok:
  "ensure_each pf rk ks nc sc = (r, sc', tr) \<Longrightarrow> pools_ok sc \<Longrightarrow> pools_ok sc'"
proof (induction ks arbitrary: nc sc r sc' tr)
  case Nil
  then show ?case by simp
next
  case (Cons a as)
  from Cons.prems(1) show ?case
  proof (cases rule: ensure_each_Cons_cases)
    case (fail e)
    then show ?thesis using client_id_pools_ok Cons.prems(2) by blast
  next
    case (ok c sc1 tr1 tr2)
    have "pools_ok sc1" using ok(1) Cons.prems(2) by (rule client_id_pools_ok)
    with ok(2) show ?thesis by (rule Cons.IH)
  qed
qed

text \<open>A successful pass over the keys fills every key it visits and keeps the key list.\<close>

lemma ensure_each_result:
  "ensure_each pf rk ks nc sc = (Inr nc', sc', tr) \<Longrightarrow> set ks \<subseteq> fst ` set nc \<Longrightarrow>
   map fst nc' = map fst nc \<and> (\<forall>k\<in>set ks. \<exists>c. map_of nc' k = Some (Some c)) \<and>
   (\<forall>k. k \<notin> set ks \<longrightarrow> map_of nc' k = map_of nc k)"
proof (induction ks arbitrary: nc sc sc' tr)
  case Nil
  then show ?case by simp
next
  case (Cons a as)
  from Cons.prems(1) show ?case
  proof (cases rule: ensure_each_Cons_cases)
    case (fail e)
    then show ?thesis by simp
  next
    case (ok c sc1 tr1 tr2)
    let ?nc1 = "AList.update a (Some c) nc"
    have keys1: "map fst ?nc1 = map fst nc" using Cons.prems(2) by (simp add: update_keys)
    then have sub: "set as \<subseteq> fst ` set ?nc1" using Cons.prems(2) by (metis list.set_map set_subset_Cons subset_trans)
    have ih: "map fst nc' = map fst ?nc1 \<and> (\<forall>k\<in>set as. \<exists>c. map_of nc' k = Some (Some c)) \<and>
      (\<forall>k. k \<notin> set as \<longrightarrow> map_of nc' k = map_of ?nc1 k)"
      using ok(2) sub by (rule Cons.IH)
    have "\<exists>c. map_of nc' a = Some (Some c)"
    proof (cases "a \<in> set as")
      case True
      then show ?thesis using ih by blast
    next
      case False
      then have "map_of nc' a = map_of ?nc1 a" using ih by blast
      then show ?thesis by (simp add: update_conv')
    qed
    moreover have "\<forall>k. k \<notin> set (a # as) \<longrightarrow> map_of nc' k = map_of nc k"
      using ih by (simp add: update_conv')
    ultimately show ?thesis using ih keys1 by simp
  qed
qed

subsection \<open>The loop of the write-lock section\<close>

lemma carry_over_keys: "carry_over es nc tc = (nc', tc') \<Longrightarrow> map fst nc' = map fst nc"
proof (induction es arbitrary: nc tc)
  case Nil
  then show ?case by simp
next
  case (Cons e es)
  obtain a c where e: "e = (a, c)" by (cases e)
  show ?case
  proof (cases "has_key nc a")
    case True
    then have "map fst (AList.update a c nc) = map fst nc"
      by (simp add: update_keys has_key_iff)
    then show ?thesis using Cons e True by (metis carry_over.simps(2))
  next
    case False
    then show ?thesis using Cons e by simp
  qed
qed

lemma carry_over_toClose:
  "carry_over es nc tc = (nc', tc') \<Longrightarrow>
   tc' = tc @ map snd (filter (\<lambda>e. \<not> has_key nc (fst e)) es)"
proof (induction es arbitrary: nc tc)
  case Nil
  then show ?case by simp
next
  case (Cons e es)
  obtain a c where e: "e = (a, c)" by (cases e)
  show ?case
  proof (cases "has_key nc a")
    case True
    have same: "\<And>k. has_key (AList.update a c nc) k = has_key nc k"
      using True by (auto simp: has_key_update)
    have "carry_over es (AList.update a c nc) tc = (nc', tc')"
      using Cons.prems e True by simp
    from Cons.IH [OF this] show ?thesis using e True by (simp add: same)
  next
    case False
    have "carry_over es nc (tc @ [c]) = (nc', tc')"
      using Cons.prems e False by simp
    from Cons.IH [OF this] show ?thesis using e False by simp
  qed
qed

lemma carry_over_absent:
  "carry_over es nc tc = (nc', tc') \<Longrightarrow> k \<notin> fst ` set es \<Longrightarrow> map_of nc' k = map_of nc k"
proof (induction es arbitrary: nc tc)
  case Nil
  then show ?case by simp
next
  case (Cons e es)
  obtain a c where e: "e = (a, c)" by (cases e)
  have ka: "k \<noteq> a" and kes: "k \<notin> fst ` set es" using Cons.prems(2) e by auto
  show ?case
  proof (cases "has_key nc a")
    case True
    have "carry_over es (AList.update a c nc) tc = (nc', tc')"
      using Cons.prems e True by simp
    from Cons.IH [OF this kes] show ?thesis using ka by (simp add: update_conv')
  next
    case False
    have "carry_over es nc (tc @ [c]) = (nc', tc')"
      using Cons.prems e False by simp
    from Cons.IH [OF this kes] show ?thesis .
  qed
qed

lemma carry_over_present:
  "carry_over es nc tc = (nc', tc') \<Longrightarrow> distinct (map fst es) \<Longrightarrow> (k, v) \<in> set es \<Longrightarrow>
   has_key nc k \<Longrightarrow> map_of nc' k = Some v"
proof (induction es arbitrary: nc tc)
  case Nil
  then show ?case by simp
next
  case (Cons e es)
  obtain a c where e: "e = (a, c)" by (cases e)
  have d: "distinct (map fst es)" and a: "a \<notin> fst ` set es" using Cons.prems(2) e by auto
  show ?case
  proof (cases "has_key nc a")
    case True
    have co: "carry_over es (AList.update a c nc) tc = (nc', tc')"
      using Cons.prems e True by simp
    show ?thesis
    proof (cases "(k, v) \<in> set es")
      case True
      have "has_key (AList.update a c nc) k" using Cons.prems(4) by (simp add: has_key_update)
      from Cons.IH [OF co d True this] show ?thesis .
    next
      case False
      then have kv: "k = a" "v = c" using Cons.prems(3) e by auto
      have "map_of nc' a = map_of (AList.update a c nc) a"
        using co a by (rule carry_over_absent)
      then show ?thesis using kv by (simp add: update_conv')
    qed
  next
    case False
    have co: "carry_over es nc (tc @ [c]) = (nc', tc')"
      using Cons.prems e False by simp
    have "(k, v) \<in> set es" using Cons.prems(3,4) e False by auto
    from Cons.IH [OF co d this Cons.prems(4)] show ?thesis .
  qed
qed

lemma carry_over_values:
  "carry_over es nc tc = (nc', tc') \<Longrightarrow> snd ` set nc' \<subseteq> snd ` set nc \<union> snd ` set es"
proof (induction es arbitrary: nc tc)
  case Nil
  then show ?case by simp
next
  case (Cons e es)
  obtain a c where e: "e = (a, c)" by (cases e)
  show ?case
  proof (cases "has_key nc a")
    case True
    have co: "carry_over es (AList.update a c nc) tc = (nc', tc')"
      using Cons.prems e True by simp
    have "snd ` set (AList.update a c nc) \<subseteq> insert c (snd ` set nc)"
      using set_update_subset [of a c nc] by force
    with Cons.IH [OF co] show ?thesis using e by auto
  next
    case False
    have co: "carry_over es nc (tc @ [c]) = (nc', tc')"
      using Cons.prems e False by simp
    from Cons.IH [OF co] show ?thesis using e by auto
  qed
qed

subsection \<open>Closing the pools\<close>

lemma close_each_ok:
  "close_each cs = (None, tr) \<Longrightarrow> \<exists>xs. cs = map Some xs \<and> tr = map EvClose xs"
proof (induction cs arbitrary: tr rule: close_each.induct)
  case 1
  then show ?case by simp
next
  case (2 cs)
  then show ?case by simp
next
  case (3 c cs)
  obtain r tr0 where ce: "close_each cs = (r, tr0)" by (cases "close_each cs")
  with "3.prems" have r: "r = None" and tr: "tr = EvClose c # tr0" by auto
  from "3.IH" [of tr0] ce r obtain xs where "cs = map Some xs" "tr0 = map EvClose xs" by auto
  then have "Some c # cs = map Some (c # xs) \<and> tr = map EvClose (c # xs)" using tr by simp
  then show ?case by (rule exI)
qed

lemma close_each_total: "None \<notin> set cs \<Longrightarrow> fst (close_each cs) = None"
  by (induction cs rule: close_each.induct) (auto split: prod.splits)

lemma close_each_events: "close_each cs = (r, tr) \<Longrightarrow> EvCommit \<notin> set tr"
  by (induction cs arbitrary: r tr rule: close_each.induct) (auto split: prod.splits)

subsection \<open>The desired keys\<close>

lemma JoinHostPort_nonempty: "JoinHostPort h p \<noteq> ''''"
  by (simp add: JoinHostPort_def)

lemma sentinelMtoAddr_nonempty: "sentinelMtoAddr m cmd = Inr a \<Longrightarrow> a \<noteq> ''''"
  by (auto simp: sentinelMtoAddr_def JoinHostPort_nonempty split: if_splits)

lemma desired_keys_props:
  "desired_keys ms nc = Inr nc' \<Longrightarrow>
   fst ` set nc \<subseteq> fst ` set nc' \<and>
   ('''' \<notin> fst ` set nc \<longrightarrow> '''' \<notin> fst ` set nc') \<and>
   (distinct (map fst nc) \<longrightarrow> distinct (map fst nc'))"
proof (induction ms arbitrary: nc)
  case Nil
  then show ?case by simp
next
  case (Cons m ms)
  from Cons.prems obtain a where a: "sentinelMtoAddr m ''SENTINEL SLAVES'' = Inr a"
    and dk: "desired_keys ms (AList.update a None nc) = Inr nc'"
    by (auto split: sum.splits)
  have ne: "a \<noteq> ''''" using a by (rule sentinelMtoAddr_nonempty)
  from Cons.IH [OF dk] show ?case using ne by (auto simp: dom_update distinct_update)
qed

subsection \<open>The paths through ensureClients\<close>

lemma ensureClients_cases:
  assumes "ensureClients pf rk1 rk2 resp sc = (r, sc', tr)"
  obtains
    (early) e where "r = Some e" "sc' = sc" "tr = []"
  | (pool) primM secMM newPrimAddr nc e where "resp = Inr (primM, secMM)"
      "sentinelMtoAddr primM ''SENTINEL MASTER'' = Inr newPrimAddr"
      "desired_keys secMM [(newPrimAddr, None)] = Inr nc"
      "ensure_each pf rk1 (map fst (range_order rk1 nc)) nc sc = (Inl e, sc', tr)" "r = Some e"
  | (late_closed) primM secMM newPrimAddr nc nc1 where "resp = Inr (primM, secMM)"
      "sentinelMtoAddr primM ''SENTINEL MASTER'' = Inr newPrimAddr"
      "desired_keys secMM [(newPrimAddr, None)] = Inr nc"
      "ensure_each pf rk1 (map fst (range_order rk1 nc)) nc sc = (Inr nc1, sc', tr)"
      "closed sc'" "r = Some ErrClosed"
  | (commit) primM secMM newPrimAddr nc nc1 sc1 tr1 nc2 toClose trc where "resp = Inr (primM, secMM)"
      "sentinelMtoAddr primM ''SENTINEL MASTER'' = Inr newPrimAddr"
      "desired_keys secMM [(newPrimAddr, None)] = Inr nc"
      "ensure_each pf rk1 (map fst (range_order rk1 nc)) nc sc = (Inr nc1, sc1, tr1)"
      "\<not> closed sc1"
      "carry_over (range_order rk2 (clients sc1)) nc1 [] = (nc2, toClose)"
      "close_each toClose = (r, trc)"
      "sc' = sc1\<lparr>primAddr := newPrimAddr, clients := nc2\<rparr>"
      "tr = tr1 @ EvCommit # trc"
proof (cases resp)
  case (Inl e)
  then show ?thesis using assms by (intro early [of e]) (auto simp: ensureClients_def)
next
  case (Inr pr)
  obtain primM secMM where pr: "pr = (primM, secMM)" by (cases pr)
  show ?thesis
  proof (cases "sentinelMtoAddr primM ''SENTINEL MASTER''")
    case (Inl e)
    then show ?thesis using assms Inr pr by (intro early [of e]) (auto simp: ensureClients_def)
  next
    case pa: (Inr newPrimAddr)
    show ?thesis
    proof (cases "desired_keys secMM [(newPrimAddr, None)]")
      case (Inl e)
      then show ?thesis using assms Inr pr pa by (intro early [of e]) (auto simp: ensureClients_def)
    next
      case dk: (Inr nc)
      obtain r1 sc1 tr1 where ee: "ensure_each pf rk1 (map fst (range_order rk1 nc)) nc sc = (r1, sc1, tr1)"
        by (cases "ensure_each pf rk1 (map fst (range_order rk1 nc)) nc sc") auto
      show ?thesis
      proof (cases r1)
        case (Inl e)
        then show ?thesis using assms Inr pr pa dk ee
          by (intro pool [of primM secMM newPrimAddr nc e]) (auto simp: ensureClients_def)
      next
        case r1: (Inr nc1)
        show ?thesis
        proof (cases "closed sc1")
          case True
          then show ?thesis using assms Inr pr pa dk ee r1
            by (intro late_closed [of primM secMM newPrimAddr nc nc1]) (auto simp: ensureClients_def)
        next
          case False
          obtain nc2 toClose where co: "carry_over (range_order rk2 (clients sc1)) nc1 [] = (nc2, toClose)"
            by (cases "carry_over (range_order rk2 (clients sc1)) nc1 []")
          obtain r2 trc where ce: "close_each toClose = (r2, trc)" by (cases "close_each toClose")
          show ?thesis using assms Inr pr pa dk ee r1 False co ce
            by (intro commit [of primM secMM newPrimAddr nc nc1 sc1 tr1 nc2 toClose trc])
              (auto simp: ensureClients_def)
        qed
      qed
    qed
  qed
qed

section \<open>A failing pool construction\<close>

text \<open>
  Claim C2 does not hold as stated. In the bootstrap pass below the \<^verbatim>\<open>ClientFunc\<close>
  succeeds for the primary and fails for the replica: the pass returns the error, and
  \<^verbatim>\<open>sc.clients\<close>, empty before the pass, holds the primary's new pool afterwards,
  because \<^verbatim>\<open>client\<close> stores every pool it creates at once.
\<close>

theorem ensureClients_pool_failure_mutates:
  "ensureClients ex_pf_second_fails ex_rank ex_rank (Inr ex_topology) ex_boot_state =
     (Some (ErrCreatingClient ''10.0.0.11:6379'' (ErrExternal ''connection refused'')),
      ex_boot_state\<lparr>clients := [(''10.0.0.10:6379'', Some 1)]\<rparr>,
      [EvPoolFunc ''10.0.0.10:6379'' (Inr 1), EvInstall ''10.0.0.10:6379'' 1,
       EvPoolFunc ''10.0.0.11:6379'' (Inl (ErrExternal ''connection refused''))]) \<and>
   clients (ex_boot_state\<lparr>clients := [(''10.0.0.10:6379'', Some 1)]\<rparr>) \<noteq> clients ex_boot_state"
  by (simp add: ensureClients_def ex_topology_def ex_boot_state_def ex_pf_second_fails_def
      client_def client_rlock_def client_get_def)

lemma close_each_only_closes: "close_each cs = (r, tr) \<Longrightarrow> ev \<in> set tr \<Longrightarrow> \<exists>c. ev = EvClose c"
proof (induction cs arbitrary: r tr rule: close_each.induct)
  case 1
  then show ?case by simp
next
  case (2 cs)
  then show ?case by simp
next
  case (3 c cs)
  obtain r0 tr0 where ce: "close_each cs = (r0, tr0)" by (cases "close_each cs")
  with "3.prems" have "tr = EvClose c # tr0" by auto
  then show ?case using "3.IH" [OF ce] "3.prems"(2) by auto
qed

lemma desired_nonempty_keys:
  assumes "sentinelMtoAddr primM cmd = Inr p" and "desired_keys secMM [(p, None)] = Inr nc"
  shows "'''' \<notin> set (map fst (range_order rk nc)) \<and> distinct (map fst nc) \<and> has_key nc p"
proof -
  have "p \<noteq> ''''" using assms(1) by (rule sentinelMtoAddr_nonempty)
  then show ?thesis using desired_keys_props [OF assms(2)] by (auto simp: has_key_iff)
qed

text \<open>
  Claim C2, amended. If a call of the \<^verbatim>\<open>ClientFunc\<close> fails during a pass of
  \<^verbatim>\<open>ensureClients\<close>, the pass returns the error "error creating client" for that
  address around the failure, nothing is committed, and all fields but \<^verbatim>\<open>sc.clients\<close>
  are as before (in particular the primary's address and the known Sentinels). In
  \<^verbatim>\<open>sc.clients\<close> every pool that was there is still there under its key, and every
  key that is new holds a pool the \<^verbatim>\<open>ClientFunc\<close> created for it in this pass.
\<close>

theorem ensureClients_pool_failure:
  assumes "ensureClients pf rk1 rk2 resp sc = (r, sc', tr)" and "EvPoolFunc a (Inl e) \<in> set tr"
  shows "r = Some (ErrCreatingClient a e) \<and> pf a = Inl e \<and> EvCommit \<notin> set tr \<and>
         sc' = sc\<lparr>clients := clients sc'\<rparr> \<and>
         (\<forall>k c. client_get (clients sc) k = Some c \<longrightarrow> client_get (clients sc') k = Some c) \<and>
         (\<forall>k. has_key (clients sc') k \<longrightarrow>
              has_key (clients sc) k \<or> (\<exists>n. EvInstall k n \<in> set tr \<and> pf k = Inr n))"
  using assms(1)
proof (cases rule: ensureClients_cases)
  case (early e')
  then show ?thesis using assms(2) by simp
next
  case (pool primM secMM p nc e')
  have ne: "'''' \<notin> set (map fst (range_order rk1 nc))"
    using desired_nonempty_keys [OF pool(2,3)] by blast
  have "Inl e' = (Inl (ErrCreatingClient a e) :: error + client option gomap) \<and> pf a = Inl e
      \<and> a \<in> set (map fst (range_order rk1 nc))"
    using pool(4) assms(2) ne by (rule ensure_each_pf_event)
  then have r: "r = Some (ErrCreatingClient a e)" and pf: "pf a = Inl e" using pool(5) by auto
  have fr: "sc' = sc\<lparr>clients := clients sc'\<rparr> \<and> EvCommit \<notin> set tr"
    using pool(4) by (rule ensure_each_frame)
  have keep: "\<forall>k c. client_get (clients sc) k = Some c \<longrightarrow> client_get (clients sc') k = Some c"
    using ensure_each_keeps [OF pool(4)] by blast
  have new: "\<forall>k. has_key (clients sc') k \<longrightarrow>
              has_key (clients sc) k \<or> (\<exists>n. EvInstall k n \<in> set tr \<and> pf k = Inr n)"
    using ensure_each_new_keys [OF pool(4)] by blast
  from r pf fr keep new show ?thesis by blast
next
  case (late_closed primM secMM p nc nc1)
  have ne: "'''' \<notin> set (map fst (range_order rk1 nc))"
    using desired_nonempty_keys [OF late_closed(2,3)] by blast
  have "Inr nc1 = (Inl (ErrCreatingClient a e) :: error + client option gomap) \<and> pf a = Inl e
      \<and> a \<in> set (map fst (range_order rk1 nc))"
    using late_closed(4) assms(2) ne by (rule ensure_each_pf_event)
  then show ?thesis by simp
next
  case (commit primM secMM p nc nc1 sc1 tr1 nc2 toClose trc)
  have ne: "'''' \<notin> set (map fst (range_order rk1 nc))"
    using desired_nonempty_keys [OF commit(2,3)] by blast
  have "EvPoolFunc a (Inl e) \<notin> set trc"
    using close_each_only_closes [OF commit(7)] by blast
  then have "EvPoolFunc a (Inl e) \<in> set tr1" using assms(2) commit(9) by simp
  with commit(4) have "Inr nc1 = (Inl (ErrCreatingClient a e) :: error + client option gomap)
      \<and> pf a = Inl e \<and> a \<in> set (map fst (range_order rk1 nc))"
    using ne by (rule ensure_each_pf_event)
  then show ?thesis by simp
qed

theorem ensureClients_pool_failure_witness:
  "EvPoolFunc ''10.0.0.11:6379'' (Inl (ErrExternal ''connection refused''))
     \<in> set (snd (snd (ensureClients ex_pf_second_fails ex_rank ex_rank (Inr ex_topology) ex_boot_state))) \<and>
   fst (ensureClients ex_pf_second_fails ex_rank ex_rank (Inr ex_topology) ex_boot_state)
     = Some (ErrCreatingClient ''10.0.0.11:6379'' (ErrExternal ''connection refused'')) \<and>
   primAddr (fst (snd (ensureClients ex_pf_second_fails ex_rank ex_rank (Inr ex_topology) ex_boot_state)))
     = primAddr ex_boot_state \<and>
   sentinelAddrs (fst (snd (ensureClients ex_pf_second_fails ex_rank ex_rank (Inr ex_topology) ex_boot_state)))
     = sentinelAddrs ex_boot_state"
proof -
  let ?res = "ensureClients ex_pf_second_fails ex_rank ex_rank (Inr ex_topology) ex_boot_state"
  have ev: "?res = (fst ?res, fst (snd ?res), snd (snd ?res))" by simp
  have mem: "EvPoolFunc ''10.0.0.11:6379'' (Inl (ErrExternal ''connection refused''))
     \<in> set (snd (snd ?res))"
    by (simp add: ensureClients_def ex_topology_def ex_boot_state_def ex_pf_second_fails_def
      client_def client_rlock_def client_get_def)
  from ensureClients_pool_failure [OF ev mem]
  have "fst ?res = Some (ErrCreatingClient ''10.0.0.11:6379'' (ErrExternal ''connection refused''))"
    and "fst (snd ?res) = ex_boot_state\<lparr>clients := clients (fst (snd ?res))\<rparr>"
    by blast+
  then show ?thesis using mem by (metis sentinel.select_convs(4,6) sentinel.surjective sentinel.update_convs(5))
qed

section \<open>The primary is a key of the pools\<close>

subsection \<open>What a reconciliation pass keeps\<close>

lemma ensureClients_keeps_ok:
  assumes "ensureClients pf rk1 rk2 resp sc = (r, sc', tr)" and "pools_ok sc"
  shows "pools_ok sc'"
  using assms(1)
proof (cases rule: ensureClients_cases)
  case (early e)
  then show ?thesis using assms(2) by simp
next
  case (pool primM secMM p nc e)
  then show ?thesis using ensure_each_pools_ok assms(2) by blast
next
  case (late_closed primM secMM p nc nc1)
  then show ?thesis using ensure_each_pools_ok assms(2) by blast
next
  case (commit primM secMM p nc nc1 sc1 tr1 nc2 toClose trc)
  let ?ks = "map fst (range_order rk1 nc)"
  have ok1: "pools_ok sc1" using commit(4) assms(2) by (rule ensure_each_pools_ok)
  have dn: "distinct (map fst nc)" using desired_nonempty_keys [OF commit(2,3)] by blast
  have sub: "set ?ks \<subseteq> fst ` set nc" by simp
  have res: "map fst nc1 = map fst nc \<and> (\<forall>k\<in>set ?ks. \<exists>c. map_of nc1 k = Some (Some c)) \<and>
      (\<forall>k. k \<notin> set ?ks \<longrightarrow> map_of nc1 k = map_of nc k)"
    using commit(4) sub by (rule ensure_each_result)
  have k2: "map fst nc2 = map fst nc1" using commit(6) by (rule carry_over_keys)
  have d2: "distinct (map fst nc2)" using k2 res dn by simp
  have v1: "None \<notin> snd ` set nc1"
  proof
    assume "None \<in> snd ` set nc1"
    then obtain k where kv: "(k, None) \<in> set nc1" by force
    then have "k \<in> set ?ks" using res by (metis (no_types, lifting) image_eqI fst_conv list.set_map range_order_keys)
    then obtain c where "map_of nc1 k = Some (Some c)" using res by blast
    moreover have "map_of nc1 k = Some None"
      using kv res dn by (metis map_of_is_SomeI)
    ultimately show False by simp
  qed
  have "snd ` set nc2 \<subseteq> snd ` set nc1 \<union> snd ` set (range_order rk2 (clients sc1))"
    using commit(6) by (rule carry_over_values)
  then have v2: "None \<notin> snd ` set nc2" using v1 ok1 by (auto simp: pools_ok_def)
  show ?thesis using commit(5,8) d2 v2 by (simp add: pools_ok_def)
qed

lemma ensureClients_primary_key:
  assumes "ensureClients pf rk1 rk2 resp sc = (r, sc', tr)"
  shows "(EvCommit \<in> set tr \<longrightarrow> has_key (clients sc') (primAddr sc')) \<and>
         (EvCommit \<notin> set tr \<longrightarrow> primAddr sc' = primAddr sc \<and>
            (\<forall>k. has_key (clients sc) k \<longrightarrow> has_key (clients sc') k)) \<and>
         (r = None \<longrightarrow> EvCommit \<in> set tr)"
  using assms(1)
proof (cases rule: ensureClients_cases)
  case (early e)
  then show ?thesis by simp
next
  case (pool primM secMM p nc e)
  have "sc' = sc\<lparr>clients := clients sc'\<rparr> \<and> EvCommit \<notin> set tr"
    using pool(4) by (rule ensure_each_frame)
  moreover have "primAddr (sc\<lparr>clients := clients sc'\<rparr>) = primAddr sc" by simp
  ultimately have "primAddr sc' = primAddr sc" "EvCommit \<notin> set tr" by auto
  then show ?thesis using ensure_each_old_keys [OF pool(4)] pool(5) by blast
next
  case (late_closed primM secMM p nc nc1)
  have "sc' = sc\<lparr>clients := clients sc'\<rparr> \<and> EvCommit \<notin> set tr"
    using late_closed(4) by (rule ensure_each_frame)
  moreover have "primAddr (sc\<lparr>clients := clients sc'\<rparr>) = primAddr sc" by simp
  ultimately have "primAddr sc' = primAddr sc" "EvCommit \<notin> set tr" by auto
  then show ?thesis using ensure_each_old_keys [OF late_closed(4)] late_closed(6) by blast
next
  case (commit primM secMM p nc nc1 sc1 tr1 nc2 toClose trc)
  have hp: "has_key nc p" using desired_nonempty_keys [OF commit(2,3)] by blast
  have "map fst nc1 = map fst nc"
    using ensure_each_result [OF commit(4)] by simp
  moreover have "map fst nc2 = map fst nc1" using commit(6) by (rule carry_over_keys)
  ultimately have "has_key nc2 p" using hp by (metis has_key_iff list.set_map)
  then have "has_key (clients sc') (primAddr sc')" using commit(8) by simp
  then show ?thesis using commit(9) by simp
qed

lemma ensureSentinelAddrs_frame:
  "ensureSentinelAddrs sc cn resp = (r, sc') \<Longrightarrow> sc' = sc\<lparr>sentinelAddrs := sentinelAddrs sc'\<rparr>"
  by (auto simp: ensureSentinelAddrs_def Let_def split: sum.splits if_splits)

lemma DoSecondary_client:
  assumes "DoSecondary pf rk env act sc = (r, sc', tr)"
  obtains r1 tr1 where "client pf rk env sc '''' = (r1, sc', tr1)"
  using assms by (auto simp: DoSecondary_def split: prod.splits sum.splits)

lemma NewSentinel_cases:
  assumes "NewSentinel cf pf rk0 rk1 rk2 respS respC pconn primaryName addrs = Inr sc"
  obtains cn sc1 tr where
    "ensureSentinelAddrs \<lparr>closed = False, initAddrs = addrs, name = primaryName, primAddr = '''',
        clients = [], sentinelAddrs = fold (\<lambda>a m. AList.update a True m) addrs []\<rparr> cn (respS cn)
      = (None, sc1)"
    "ensureClients pf rk1 rk2 (respC cn) sc1 = (None, sc, tr)"
proof -
  let ?sc0 = "\<lparr>closed = False, initAddrs = addrs, name = primaryName, primAddr = '''',
                clients = [], sentinelAddrs = fold (\<lambda>a m. AList.update a True m) addrs []\<rparr>"
  have ne: "addrs \<noteq> []" using assms by (auto simp: NewSentinel_def Let_def)
  obtain co eo where d: "dialSentinel cf rk0 ?sc0 = (co, eo)" by (cases "dialSentinel cf rk0 ?sc0")
  have eo: "eo = None" using assms ne d by (cases eo; cases co) (simp_all add: NewSentinel_def Let_def)
  then obtain cn where co: "co = Some cn"
    using assms ne d by (cases co) (simp_all add: NewSentinel_def Let_def)
  obtain r1 sc1 where s: "ensureSentinelAddrs ?sc0 cn (respS cn) = (r1, sc1)"
    by (cases "ensureSentinelAddrs ?sc0 cn (respS cn)")
  have r1: "r1 = None" using assms ne d eo co s by (cases r1) (simp_all add: NewSentinel_def Let_def)
  obtain r2 sc2 tr where c: "ensureClients pf rk1 rk2 (respC cn) sc1 = (r2, sc2, tr)"
    by (cases "ensureClients pf rk1 rk2 (respC cn) sc1") auto
  have r2: "r2 = None" using assms ne d eo co s r1 c by (cases r2) (simp_all add: NewSentinel_def Let_def)
  have "sc2 = sc" using assms ne d eo co s r1 c r2
    by (cases pconn) (simp_all add: NewSentinel_def Let_def)
  then show ?thesis using that [of cn sc1 tr] s r1 c r2 by simp
qed

lemma reachable_topology_ok: "reachable sc \<Longrightarrow> topology_ok sc"
proof (induction rule: reachable.induct)
  case (constructed cf pf rk0 rk1 rk2 respS respC pconn primaryName addrs sc)
  let ?sc0 = "\<lparr>closed = False, initAddrs = addrs, name = primaryName, primAddr = '''',
                clients = [], sentinelAddrs = fold (\<lambda>a m. AList.update a True m) addrs []\<rparr>"
  from constructed obtain cn sc1 tr where
    s: "ensureSentinelAddrs ?sc0 cn (respS cn) = (None, sc1)" and
    c: "ensureClients pf rk1 rk2 (respC cn) sc1 = (None, sc, tr)"
    by (rule NewSentinel_cases)
  have "sc1 = ?sc0\<lparr>sentinelAddrs := sentinelAddrs sc1\<rparr>" using s by (rule ensureSentinelAddrs_frame)
  then have "closed sc1 = False \<and> clients sc1 = []"
    by (metis sentinel.select_convs(1,5) sentinel.update_convs(6))
  then have "pools_ok sc1" by (simp add: pools_ok_def)
  with c have "pools_ok sc" by (rule ensureClients_keeps_ok)
  moreover have "has_key (clients sc) (primAddr sc)"
    using ensureClients_primary_key [OF c] by blast
  ultimately show ?case by (simp add: topology_ok_def)
next
  case (sentinels_pass sc cn resp r sc')
  have "sc' = sc\<lparr>sentinelAddrs := sentinelAddrs sc'\<rparr>"
    using sentinels_pass(2) by (rule ensureSentinelAddrs_frame)
  then have "closed sc' = closed sc \<and> clients sc' = clients sc \<and> primAddr sc' = primAddr sc"
    by (metis sentinel.select_convs(1,4,5) sentinel.surjective sentinel.update_convs(6))
  then show ?case using sentinels_pass(3) by (simp add: topology_ok_def pools_ok_def)
next
  case (clients_pass sc pf rk1 rk2 resp r sc' tr)
  have "pools_ok sc'" using clients_pass(2,3) ensureClients_keeps_ok by (auto simp: topology_ok_def)
  moreover have "has_key (clients sc') (primAddr sc')"
    using ensureClients_primary_key [OF clients_pass(2)] clients_pass(3)
    by (cases "EvCommit \<in> set tr") (auto simp: topology_ok_def)
  ultimately show ?case by (simp add: topology_ok_def)
next
  case (secondary_call sc pf rk act r sc' tr)
  from secondary_call(2) obtain r1 tr1 where c: "client pf rk id sc '''' = (r1, sc', tr1)"
    by (rule DoSecondary_client)
  have "pools_ok sc'" using c secondary_call(3) client_id_pools_ok by (auto simp: topology_ok_def)
  moreover have "sc' = sc\<lparr>clients := clients sc'\<rparr>" using client_id_frame [OF c] by simp
  then have "primAddr sc' = primAddr sc" by (metis sentinel.select_convs(4) sentinel.surjective sentinel.update_convs(5))
  moreover have "has_key (clients sc') (primAddr sc)"
    using client_id_old_keys [OF c] secondary_call(3) by (simp add: topology_ok_def)
  ultimately show ?case by (simp add: topology_ok_def)
qed



lemma ensureClients_commit_shape:
  assumes "ensureClients pf rk1 rk2 resp sc0 = (r, sc', tr)" and "EvCommit \<in> set tr"
  obtains primM secMM m where "resp = Inr (primM, secMM)"
    "sentinelMtoAddr primM ''SENTINEL MASTER'' = Inr (primAddr sc')"
    "sc' = sc0\<lparr>primAddr := primAddr sc', clients := m\<rparr>"
  using assms(1)
proof (cases rule: ensureClients_cases)
  case (early e)
  then show ?thesis using assms(2) by simp
next
  case (pool primM secMM p nc e)
  have "EvCommit \<notin> set tr" using ensure_each_frame [OF pool(4)] by simp
  then show ?thesis using assms(2) by simp
next
  case (late_closed primM secMM p nc nc1)
  have "EvCommit \<notin> set tr" using ensure_each_frame [OF late_closed(4)] by simp
  then show ?thesis using assms(2) by simp
next
  case (commit primM secMM p nc nc1 sc1 tr1 nc2 toClose trc)
  have "sc1 = sc0\<lparr>clients := clients sc1\<rparr>" using ensure_each_frame [OF commit(4)] by simp
  then obtain m1 where m1: "sc1 = sc0\<lparr>clients := m1\<rparr>" by (rule that)
  have "sc' = sc0\<lparr>primAddr := p, clients := nc2\<rparr>" using commit(8) by (simp add: m1)
  moreover from this have "primAddr sc' = p" by simp
  ultimately show ?thesis using commit(1,2) that [of primM secMM nc2] by simp
qed

text \<open>
  Claim C6. In every reachable state (after a successful construction, before close) the
  primary's address is a key of \<^verbatim>\<open>sc.clients\<close>. And every pass of \<^verbatim>\<open>ensureClients\<close>
  that commits, from any state, changes no field but the primary's address and the
  clients, which it sets in the one write-lock section, leaves the primary's address
  reported by \<^verbatim>\<open>SENTINEL MASTER\<close> as the new one, and has it among the keys of the
  new map.
\<close>

theorem primAddr_is_key_of_clients:
  "(reachable sc \<longrightarrow> primAddr sc \<in> fst ` set (clients sc)) \<and>
   (ensureClients pf rk1 rk2 resp sc0 = (r, sc', tr) \<and> EvCommit \<in> set tr \<longrightarrow>
      primAddr sc' \<in> fst ` set (clients sc') \<and>
      sc' = sc0\<lparr>primAddr := primAddr sc', clients := clients sc'\<rparr> \<and>
      (\<exists>primM secMM. resp = Inr (primM, secMM) \<and>
         sentinelMtoAddr primM ''SENTINEL MASTER'' = Inr (primAddr sc')))"
proof (intro conjI impI)
  assume "reachable sc"
  then have "topology_ok sc" by (rule reachable_topology_ok)
  then show "primAddr sc \<in> fst ` set (clients sc)"
    by (simp add: topology_ok_def has_key_iff)
next
  assume a: "ensureClients pf rk1 rk2 resp sc0 = (r, sc', tr) \<and> EvCommit \<in> set tr"
  then show "primAddr sc' \<in> fst ` set (clients sc')"
    using ensureClients_primary_key [of pf rk1 rk2 resp sc0 r sc' tr] by (simp add: has_key_iff)
next
  assume a: "ensureClients pf rk1 rk2 resp sc0 = (r, sc', tr) \<and> EvCommit \<in> set tr"
  then obtain primM secMM m where "sc' = sc0\<lparr>primAddr := primAddr sc', clients := m\<rparr>"
    using ensureClients_commit_shape [of pf rk1 rk2 resp sc0 r sc' tr] by blast
  moreover from this have "clients sc' = m"
    by (metis sentinel.select_convs(5) sentinel.surjective sentinel.update_convs(4,5))
  ultimately show "sc' = sc0\<lparr>primAddr := primAddr sc', clients := clients sc'\<rparr>" by simp
next
  assume a: "ensureClients pf rk1 rk2 resp sc0 = (r, sc', tr) \<and> EvCommit \<in> set tr"
  then show "\<exists>primM secMM. resp = Inr (primM, secMM) \<and>
         sentinelMtoAddr primM ''SENTINEL MASTER'' = Inr (primAddr sc')"
    using ensureClients_commit_shape [of pf rk1 rk2 resp sc0 r sc' tr] by blast
qed

section \<open>A construction and two passes\<close>

text \<open>
  The example states are reachable: \<^verbatim>\<open>NewSentinel\<close> dials the second bootstrap
  Sentinel, learns the peer, creates the two pools and returns \<open>ex_state\<close>; a pass in
  which the second replica has appeared leads from there to \<open>ex_shared_state\<close>, where
  the new replica's key holds the primary's pool.
\<close>

lemma ex_dial: "dialSentinel ex_cf ex_rank
     \<lparr>closed = False, initAddrs = [''10.0.0.1:26379'', ''10.0.0.2:26379''], name = ''mymaster'',
      primAddr = '''', clients = [],
      sentinelAddrs = [(''10.0.0.1:26379'', True), (''10.0.0.2:26379'', True)]\<rparr>
   = (Some \<lparr>conn_id = 7, conn_addr = ''10.0.0.2:26379''\<rparr>, None)"
  by (simp add: dialSentinel_def ex_cf_def)

lemma ex_sentinels: "ensureSentinelAddrs
     \<lparr>closed = False, initAddrs = [''10.0.0.1:26379'', ''10.0.0.2:26379''], name = ''mymaster'',
      primAddr = '''', clients = [],
      sentinelAddrs = [(''10.0.0.1:26379'', True), (''10.0.0.2:26379'', True)]\<rparr>
     \<lparr>conn_id = 7, conn_addr = ''10.0.0.2:26379''\<rparr> (Inr ex_peers)
   = (None, ex_boot_state)"
  by (simp add: ensureSentinelAddrs_def ex_peers_def ex_boot_state_def str_get_def JoinHostPort_def)

lemma ex_bootstrap_pass:
  "ensureClients ex_pf ex_rank ex_rank (Inr ex_topology) ex_boot_state =
     (None, ex_state,
      [EvPoolFunc ''10.0.0.10:6379'' (Inr 1), EvInstall ''10.0.0.10:6379'' 1,
       EvPoolFunc ''10.0.0.11:6379'' (Inr 2), EvInstall ''10.0.0.11:6379'' 2, EvCommit])"
  by (simp add: ensureClients_def ex_topology_def ex_boot_state_def ex_state_def ex_pf_def
      client_def client_rlock_def client_get_def has_key_def)

lemma ex_new_sentinel:
  "NewSentinel ex_cf ex_pf ex_rank ex_rank ex_rank (\<lambda>cn. Inr ex_peers) (\<lambda>cn. Inr ex_topology) None
     ''mymaster'' [''10.0.0.1:26379'', ''10.0.0.2:26379''] = Inr ex_state"
  by (simp add: NewSentinel_def ex_dial ex_sentinels ex_bootstrap_pass)

lemma ex_state_reachable: "reachable ex_state"
  using ex_new_sentinel by (rule reachable.constructed)

lemma ex_grow_pass:
  "ensureClients ex_pf ex_rank ex_rank (Inr ex_topology_grown) ex_state = (None, ex_shared_state, [EvCommit])"
  by (simp add: ensureClients_def ex_topology_grown_def ex_shared_state_def ex_state_def
      client_def client_rlock_def client_get_def has_key_def)

lemma ex_shared_state_reachable: "reachable ex_shared_state"
  using ex_state_reachable ex_grow_pass by (rule reachable.clients_pass)

section \<open>The theorems at the example states\<close>

theorem primAddr_is_key_of_clients_witness:
  "reachable ex_state \<and> primAddr ex_state \<in> fst ` set (clients ex_state) \<and>
   ensureClients ex_pf ex_rank ex_rank (Inr ex_topology) ex_boot_state =
     (None, ex_state,
      [EvPoolFunc ''10.0.0.10:6379'' (Inr 1), EvInstall ''10.0.0.10:6379'' 1,
       EvPoolFunc ''10.0.0.11:6379'' (Inr 2), EvInstall ''10.0.0.11:6379'' 2, EvCommit]) \<and>
   sentinelMtoAddr (fst ex_topology) ''SENTINEL MASTER'' = Inr (primAddr ex_state)"
proof -
  let ?tr = "[EvPoolFunc ''10.0.0.10:6379'' (Inr 1), EvInstall ''10.0.0.10:6379'' 1,
       EvPoolFunc ''10.0.0.11:6379'' (Inr 2), EvInstall ''10.0.0.11:6379'' 2, EvCommit]"
  have c: "EvCommit \<in> set ?tr" by simp
  have "primAddr ex_state \<in> fst ` set (clients ex_state)"
    using primAddr_is_key_of_clients [of ex_state ex_pf ex_rank ex_rank "Inr ex_topology" ex_boot_state None ex_state ?tr]
      ex_state_reachable by blast
  moreover have "\<exists>primM secMM. Inr ex_topology = (Inr (primM, secMM) :: error + (string gomap \<times> string gomap list)) \<and>
         sentinelMtoAddr primM ''SENTINEL MASTER'' = Inr (primAddr ex_state)"
    using primAddr_is_key_of_clients [of ex_state ex_pf ex_rank ex_rank "Inr ex_topology" ex_boot_state None ex_state ?tr]
      ex_bootstrap_pass c by blast
  then have "sentinelMtoAddr (fst ex_topology) ''SENTINEL MASTER'' = Inr (primAddr ex_state)"
    by (metis fst_conv sum.inject(2))
  ultimately show ?thesis using ex_state_reachable ex_bootstrap_pass by simp
qed

theorem Clients_single_entry_witness:
  "distinct (map fst (clients ex_state)) \<and>
   Clients ex_rank ex_state =
     ([(''10.0.0.10:6379'', \<lparr>Primary = Some 1, Secondaries = [Some 2]\<rparr>)], None)"
proof -
  have d: "distinct (map fst (clients ex_state))" by (simp add: ex_state_def)
  have e: "Clients ex_rank ex_state = (fst (Clients ex_rank ex_state), None)"
    by (simp add: Clients_def ex_state_def)
  from Clients_single_entry [OF e d] obtain rs where
    "fst (Clients ex_rank ex_state) = [(primAddr ex_state, rs)]"
    "Primary rs = client_get (clients ex_state) (primAddr ex_state)"
    "Secondaries rs = map snd (filter (\<lambda>e. fst e \<noteq> primAddr ex_state) (range_order ex_rank (clients ex_state)))"
    by blast
  then have "fst (Clients ex_rank ex_state) =
      [(''10.0.0.10:6379'', \<lparr>Primary = Some 1, Secondaries = [Some 2]\<rparr>)]"
    by (simp add: ex_state_def client_get_def)
  then show ?thesis using d e by simp
qed

theorem ensureSentinelAddrs_no_validation_witness:
  "\<not> closed ex_state \<and>
   ensureSentinelAddrs ex_state \<lparr>conn_id = 7, conn_addr = ''10.0.0.2:26379''\<rparr>
       (Inr [[(''ip'', ''10.0.0.3''), (''port'', ''26379'')], [(''name'', ''peer'')]])
     = (None, ex_state\<lparr>sentinelAddrs :=
         [(''10.0.0.2:26379'', True), (''10.0.0.3:26379'', True), ('':'', True)]\<rparr>)"
proof -
  have c: "\<not> closed ex_state" by (simp add: ex_state_def)
  from ensureSentinelAddrs_no_validation [OF c, of "\<lparr>conn_id = 7, conn_addr = ''10.0.0.2:26379''\<rparr>"
      "[[(''ip'', ''10.0.0.3''), (''port'', ''26379'')], [(''name'', ''peer'')]]"]
  obtain addrs where "ensureSentinelAddrs ex_state \<lparr>conn_id = 7, conn_addr = ''10.0.0.2:26379''\<rparr>
       (Inr [[(''ip'', ''10.0.0.3''), (''port'', ''26379'')], [(''name'', ''peer'')]])
     = (None, ex_state\<lparr>sentinelAddrs := addrs\<rparr>)"
    by blast
  then show ?thesis using c
    by (simp add: ensureSentinelAddrs_def str_get_def JoinHostPort_def)
qed

theorem ensureClients_malformed_no_commit_witness:
  "str_get [] ''ip'' = '''' \<and>
   ensureClients ex_pf ex_rank ex_rank (Inr ([], [])) ex_state
     = (Some (ErrMalformed ''SENTINEL MASTER'' []), ex_state, []) \<and>
   ensureClients ex_pf ex_rank ex_rank
       (Inr ([(''ip'', ''10.0.0.10''), (''port'', ''6379'')], [[(''ip'', ''10.0.0.11'')]])) ex_state
     = (Some (ErrMalformed ''SENTINEL SLAVES'' [(''ip'', ''10.0.0.11'')]), ex_state, [])"
proof -
  have h1: "str_get [] ''ip'' = '''' \<or> str_get [] ''port'' = '''' \<or>
           (\<exists>m\<in>set []. str_get m ''ip'' = '''' \<or> str_get m ''port'' = '''')"
    by (simp add: str_get_def)
  have h2: "str_get [(''ip'', ''10.0.0.10''), (''port'', ''6379'')] ''ip'' = '''' \<or>
            str_get [(''ip'', ''10.0.0.10''), (''port'', ''6379'')] ''port'' = '''' \<or>
           (\<exists>m\<in>set [[(''ip'', ''10.0.0.11'')]]. str_get m ''ip'' = '''' \<or> str_get m ''port'' = '''')"
    by (simp add: str_get_def)
  have "ensureClients ex_pf ex_rank ex_rank (Inr ([], [])) ex_state
     = (Some (ErrMalformed ''SENTINEL MASTER'' []), ex_state, [])"
    using ensureClients_malformed_no_commit [OF h1, of ex_pf ex_rank ex_rank ex_state] by auto
  moreover have "ensureClients ex_pf ex_rank ex_rank
       (Inr ([(''ip'', ''10.0.0.10''), (''port'', ''6379'')], [[(''ip'', ''10.0.0.11'')]])) ex_state
     = (Some (ErrMalformed ''SENTINEL SLAVES'' [(''ip'', ''10.0.0.11'')]), ex_state, [])"
    using ensureClients_malformed_no_commit [OF h2, of ex_pf ex_rank ex_rank ex_state]
    by (auto simp: str_get_def)
  ultimately show ?thesis by (simp add: str_get_def)
qed

section \<open>The lookup of client\<close>

text \<open>
  Claim C1 fails on the code. The read-lock section of \<^verbatim>\<open>client\<close> never looks up
  \<^verbatim>\<open>sc.clients[addr]\<close> for a non-empty \<open>addr\<close>: it looks up the primary's address. In
  the reachable state below the replica has its own pool 2, and \<^verbatim>\<open>client\<close> called with
  the replica's address returns pool 1, the primary's.
\<close>

theorem client_returns_primary_pool_for_replica:
  "reachable ex_state \<and>
   client_get (clients ex_state) ''10.0.0.11:6379'' = Some 2 \<and>
   client ex_pf ex_rank id ex_state ''10.0.0.11:6379'' = (Inr 1, ex_state, [])"
  using ex_state_reachable by (simp add: ex_state_def client_def client_rlock_def client_get_def)

text \<open>
  The write-lock section does what the comment at lines 307 to 309 asks for: once the
  \<^verbatim>\<open>ClientFunc\<close> has made a pool, the entry of \<open>addr\<close> is read again in the state the
  other tasks left; an entry found there is returned and the fresh pool closed, and
  otherwise the fresh pool is stored and returned.
\<close>

lemma client_recheck_under_write_lock:
  assumes "\<not> closed sc" and "addr \<noteq> ''''" and "client_get (clients sc) (primAddr sc) = None"
    and "pf addr = Inr n" and "\<not> closed (env sc)"
  shows "client pf rk env sc addr =
     (case client_get (clients (env sc)) addr of
        None \<Rightarrow> (Inr n, (env sc)\<lparr>clients := AList.update addr (Some n) (clients (env sc))\<rparr>,
                 [EvPoolFunc addr (Inr n), EvInstall addr n])
      | Some c \<Rightarrow> (Inr c, env sc, [EvPoolFunc addr (Inr n), EvClose n]))"
  using assms by (simp add: client_def client_rlock_addr Let_def)

section \<open>Routing to a secondary\<close>

lemma pick_secondary_some:
  "\<exists>e\<in>set es. fst e \<noteq> p \<Longrightarrow>
   \<exists>a c. pick_secondary p es acc = (a, c) \<and> a \<noteq> p \<and> (a, c) \<in> set es"
proof (induction es arbitrary: acc)
  case Nil
  then show ?case by simp
next
  case (Cons e es)
  obtain a c where e: "e = (a, c)" by (cases e)
  show ?case
  proof (cases "a = p")
    case True
    then have "\<exists>e\<in>set es. fst e \<noteq> p" using Cons.prems e by auto
    from Cons.IH [OF this, of "(a, c)"] show ?thesis using e True by auto
  next
    case False
    then show ?thesis using e by auto
  qed
qed

lemma pick_secondary_none:
  "\<forall>e\<in>set es. fst e = p \<Longrightarrow> es \<noteq> [] \<Longrightarrow> pick_secondary p es acc = last es"
proof (induction es arbitrary: acc)
  case Nil
  then show ?case by simp
next
  case (Cons e es)
  obtain a c where e: "e = (a, c)" by (cases e)
  then have a: "a = p" using Cons.prems by simp
  show ?case
  proof (cases "es = []")
    case True
    then show ?thesis using e a by simp
  next
    case False
    then show ?thesis using Cons e a by simp
  qed
qed

text \<open>
  Claim C8. On a Sentinel in a reachable state (constructed, not closed)
  \<^verbatim>\<open>DoSecondary\<close> executes the action on exactly one pool and returns the action's
  outcome, whatever other tasks do. If \<^verbatim>\<open>sc.clients\<close> has an entry whose key is not the
  primary's address, the pool is the one of such an entry; otherwise it is the pool of
  the primary's address.
\<close>

theorem DoSecondary_picks_secondary:
  assumes "reachable sc"
  shows "\<exists>c. DoSecondary pf rk env act sc = (act c, sc, [EvDo c]) \<and>
           (if \<exists>k. has_key (clients sc) k \<and> k \<noteq> primAddr sc
            then \<exists>k. k \<noteq> primAddr sc \<and> (k, Some c) \<in> set (clients sc)
            else client_get (clients sc) (primAddr sc) = Some c)"
proof -
  let ?p = "primAddr sc"
  let ?es = "range_order rk (clients sc)"
  have ok: "topology_ok sc" using assms by (rule reachable_topology_ok)
  then have nc: "\<not> closed sc" and d: "distinct (map fst (clients sc))"
    and nn: "None \<notin> snd ` set (clients sc)" and hp: "has_key (clients sc) ?p"
    by (simp_all add: topology_ok_def pools_ok_def)
  have run: "\<And>a c. pick_secondary ?p ?es ('''', None) = (a, Some c) \<Longrightarrow>
      DoSecondary pf rk env act sc = (act c, sc, [EvDo c])"
    using nc by (simp add: DoSecondary_def client_def client_rlock_def)
  show ?thesis
  proof (cases "\<exists>k. has_key (clients sc) k \<and> k \<noteq> ?p")
    case True
    then have "\<exists>e\<in>set ?es. fst e \<noteq> ?p" by (auto simp: has_key_iff)
    then obtain a v where pk: "pick_secondary ?p ?es ('''', None) = (a, v)" and a: "a \<noteq> ?p"
      and m: "(a, v) \<in> set ?es"
      using pick_secondary_some [of ?es ?p "('''', None)"] by blast
    have "v \<noteq> None" using m nn by force
    then obtain c where v: "v = Some c" by blast
    have "DoSecondary pf rk env act sc = (act c, sc, [EvDo c])" using run pk v by simp
    moreover have "(a, Some c) \<in> set (clients sc)" using m v by simp
    ultimately show ?thesis using True a by auto
  next
    case False
    then have all: "\<forall>e\<in>set ?es. fst e = ?p" by (auto simp: has_key_iff)
    have ne: "?es \<noteq> []" using hp by (metis has_key_iff empty_iff image_is_empty list.set(1) range_order_set)
    have pk: "pick_secondary ?p ?es ('''', None) = last ?es"
      using all ne by (rule pick_secondary_none)
    obtain a v where l: "last ?es = (a, v)" by (cases "last ?es")
    have m: "(a, v) \<in> set (clients sc)" using l ne by (metis last_in_set range_order_set)
    then have a: "a = ?p" using all l ne by (metis fst_conv last_in_set)
    have "v \<noteq> None" using m nn by force
    then obtain c where v: "v = Some c" by blast
    have "DoSecondary pf rk env act sc = (act c, sc, [EvDo c])" using run pk l v by simp
    moreover have "client_get (clients sc) ?p = Some c"
      using client_get_distinct_mem [OF d m] a v by simp
    ultimately show ?thesis using False by auto
  qed
qed

theorem DoSecondary_picks_secondary_witness:
  "reachable ex_state \<and>
   DoSecondary ex_pf ex_rank id (\<lambda>c. None) ex_state = (None, ex_state, [EvDo 2]) \<and>
   (''10.0.0.11:6379'', Some 2) \<in> set (clients ex_state)"
proof -
  obtain c where "DoSecondary ex_pf ex_rank id (\<lambda>c. None) ex_state = (None, ex_state, [EvDo c])"
    using DoSecondary_picks_secondary [OF ex_state_reachable, of ex_pf ex_rank id "\<lambda>c. None"] by blast
  moreover have "DoSecondary ex_pf ex_rank id (\<lambda>c. None) ex_state = (None, ex_state, [EvDo 2])"
    by (simp add: DoSecondary_def client_def client_rlock_def ex_state_def)
  ultimately show ?thesis using ex_state_reachable by (simp add: ex_state_def)
qed

section \<open>The pools a pass closes\<close>

lemma client_id_distinct:
  assumes "client pf rk id sc addr = (r, sc1, tr)" and "distinct (map fst (clients sc))"
  shows "distinct (map fst (clients sc1))"
  using assms by (cases rule: client_id_cases) (auto simp: distinct_update)

lemma ensure_each_distinct:
  "ensure_each pf rk ks nc sc = (r, sc', tr) \<Longrightarrow> distinct (map fst (clients sc)) \<Longrightarrow>
   distinct (map fst (clients sc'))"
proof (induction ks arbitrary: nc sc r sc' tr)
  case Nil
  then show ?case by simp
next
  case (Cons a as)
  from Cons.prems(1) show ?case
  proof (cases rule: ensure_each_Cons_cases)
    case (fail e)
    then show ?thesis using client_id_distinct Cons.prems(2) by blast
  next
    case (ok c sc1 tr1 tr2)
    have "distinct (map fst (clients sc1))" using ok(1) Cons.prems(2) by (rule client_id_distinct)
    with ok(2) show ?thesis by (rule Cons.IH)
  qed
qed

text \<open>
  Entry by entry the write-lock section is exact. After a pass that succeeds, the
  events that follow the commit are the closes of the pools stored under the keys that
  the new map no longer has, one close for each such entry, and every pool stored under
  a key that the new map keeps is stored under that key in the new map.
\<close>

lemma ensureClients_closes_removed_entries:
  assumes "ensureClients pf rk1 rk2 resp sc = (None, sc', tr)" and "distinct (map fst (clients sc))"
  shows "\<exists>pre cs. tr = pre @ EvCommit # map EvClose cs \<and> EvCommit \<notin> set pre \<and>
           mset (map Some cs) =
             mset (map snd (filter (\<lambda>e. \<not> has_key (clients sc') (fst e)) (clients sc))) \<and>
           (\<forall>k c. client_get (clients sc) k = Some c \<and> has_key (clients sc') k \<longrightarrow>
                  client_get (clients sc') k = Some c)"
  using assms(1)
proof (cases rule: ensureClients_cases)
  case (early e)
  then show ?thesis by simp
next
  case (pool primM secMM p nc e)
  then show ?thesis by simp
next
  case (late_closed primM secMM p nc nc1)
  then show ?thesis by simp
next
  case (commit primM secMM p nc nc1 sc1 tr1 nc2 toClose trc)
  let ?ks = "map fst (range_order rk1 nc)"
  let ?gone = "\<lambda>k. \<not> has_key nc k"
  have ne: "'''' \<notin> set ?ks" using desired_nonempty_keys [OF commit(2,3)] by blast
  have k1: "map fst nc1 = map fst nc" using ensure_each_result [OF commit(4)] by simp
  have k2: "map fst nc2 = map fst nc1" using commit(6) by (rule carry_over_keys)
  have same1: "\<And>k. has_key nc1 k = has_key nc k" using k1 by (metis has_key_iff list.set_map)
  have same2: "\<And>k. has_key (clients sc') k = has_key nc k"
    using k1 k2 commit(8) by (metis has_key_iff list.set_map sentinel.select_convs(5) sentinel.surjective sentinel.update_convs(4,5))
  obtain cs where cs: "toClose = map Some cs" "trc = map EvClose cs"
    using close_each_ok commit(7) by blast
  have tc: "toClose = map snd (filter (\<lambda>e. \<not> has_key nc1 (fst e)) (range_order rk2 (clients sc1)))"
    using carry_over_toClose [OF commit(6)] by simp
  have "mset toClose = mset (map snd (filter (\<lambda>e. ?gone (fst e)) (clients sc1)))"
    unfolding tc by (simp add: same1 mset_filter)
  moreover have "filter (\<lambda>e. ?gone (fst e)) (clients sc1) = filter (\<lambda>e. ?gone (fst e)) (clients sc)"
    using commit(4) ne by (rule ensure_each_filter_other) (simp add: has_key_iff)
  ultimately have ms: "mset (map Some cs) =
      mset (map snd (filter (\<lambda>e. \<not> has_key (clients sc') (fst e)) (clients sc)))"
    using cs(1) by (simp add: same2)
  have pre: "EvCommit \<notin> set tr1" using ensure_each_frame [OF commit(4)] by simp
  have d1: "distinct (map fst (range_order rk2 (clients sc1)))"
    using ensure_each_distinct [OF commit(4) assms(2)] by (rule range_order_distinct)
  have carried: "\<forall>k c. client_get (clients sc) k = Some c \<and> has_key (clients sc') k \<longrightarrow>
                  client_get (clients sc') k = Some c"
  proof (intro allI impI)
    fix k c assume h: "client_get (clients sc) k = Some c \<and> has_key (clients sc') k"
    then have "client_get (clients sc1) k = Some c" using ensure_each_keeps [OF commit(4)] by blast
    then have m: "(k, Some c) \<in> set (range_order rk2 (clients sc1))"
      using client_get_Some_mem by simp
    have "has_key nc1 k" using h same1 same2 by simp
    with commit(6) d1 m have "map_of nc2 k = Some (Some c)" by (rule carry_over_present)
    then show "client_get (clients sc') k = Some c" using commit(8) by (simp add: client_get_def)
  qed
  have "tr = tr1 @ EvCommit # map EvClose cs" using commit(9) cs(2) by simp
  with pre ms carried show ?thesis by blast
qed

text \<open>
  Claim C3 fails on the code in a reachable state. After a replica appeared,
  \<^verbatim>\<open>client\<close> gave its key the primary's pool 1 (see claim C1). When the replica
  disappears again, the pass closes pool 1 after the commit, although the primary's
  address is a key before and after the commit and its pool, pool 1, is carried forward.
\<close>

theorem ensureClients_closes_primary_pool:
  "reachable ex_shared_state \<and>
   ensureClients ex_pf ex_rank ex_rank (Inr ex_topology) ex_shared_state
     = (None, ex_state, [EvCommit, EvClose 1]) \<and>
   client_get (clients ex_shared_state) (primAddr ex_shared_state) = Some 1 \<and>
   client_get (clients ex_state) (primAddr ex_state) = Some 1"
  using ex_shared_state_reachable
  by (simp add: ensureClients_def ex_topology_def ex_shared_state_def ex_state_def
      client_def client_rlock_def client_get_def has_key_def)

end
